theory Spec2Isabelle
  imports Main "HOL-Library.AList" "HOL-Library.Sublist" "HOL-Library.Word"
begin

section \<open>The rule engine, as far as the broker calls it (package sticks, type Game)\<close>

text \<open>
  The broker constructs a game with \<open>NewGame\<close>, adds the two players with \<open>AddPlayer\<close>
  and starts it with \<open>StartGame\<close>. A Go \<open>*Player\<close> may be nil, so a player pointer is a
  \<open>player option\<close>. The methods mutate the game and return an error; on every error path
  the game is left as it was, so each method is a function to \<open>error + game\<close>.
\<close>

datatype GameState = GameStateWaiting | GameStateReady | GameStateInProgress | GameStateFinished

datatype error =
    ErrQueueFull              \<comment> \<open>"matchmaking queue is full"\<close>
  | ErrShuttingDown           \<comment> \<open>"broker is shutting down"\<close>
  | ErrMatchmakingTimeout     \<comment> \<open>"matchmaking timeout"\<close>
  | ErrMatchmakingCancelled   \<comment> \<open>"matchmaking cancelled"\<close>
  | ErrServerAtCapacity       \<comment> \<open>"server at capacity"\<close>
  | ErrNotAcceptingPlayers    \<comment> \<open>"game is not accepting players"\<close>
  | ErrGameFull               \<comment> \<open>"game is full"\<close>
  | ErrNotReady               \<comment> \<open>"game is not ready to start"\<close>
  | ErrNeedTwoPlayers         \<comment> \<open>"need two players to start"\<close>

record player =
  ID :: string
  Name :: string

record game =
  GameID :: int
  Player1 :: "player option"
  Player2 :: "player option"
  CurrentTurn :: int
  State :: GameState
  Winner :: "player option"

definition NewGame :: "int \<Rightarrow> game" where
  "NewGame gid =
     \<lparr>GameID = gid, Player1 = None, Player2 = None, CurrentTurn = 0,
      State = GameStateWaiting, Winner = None\<rparr>"

definition AddPlayer :: "game \<Rightarrow> player option \<Rightarrow> error + game" where
  "AddPlayer g p =
     (if State g \<noteq> GameStateWaiting then Inl ErrNotAcceptingPlayers
      else if Player1 g = None then Inr (g\<lparr>Player1 := p\<rparr>)
      else if Player2 g = None then Inr (g\<lparr>Player2 := p, State := GameStateReady\<rparr>)
      else Inl ErrGameFull)"

definition StartGame :: "game \<Rightarrow> error + game" where
  "StartGame g =
     (if State g \<noteq> GameStateReady then Inl ErrNotReady
      else if Player1 g = None \<or> Player2 g = None then Inl ErrNeedTwoPlayers
      else Inr (g\<lparr>State := GameStateInProgress, CurrentTurn := 0\<rparr>))"

section \<open>The matchmaking broker (type GameBroker)\<close>

text \<open>
  A \<open>MatchmakingRequest\<close> is a player pointer and a reply channel made freshly by
  \<open>RequestGame\<close>; the channel is identified by a number. The game identifier is
  \<open>fmt.Sprintf("game_%d", time.Now().UnixNano())\<close>: the model keeps the nanosecond
  count itself, since the formatting is injective.
\<close>

record request =
  Player :: "player option"
  Response :: nat

record response =
  Game :: "game option"
  Error :: "error option"

record session =
  SessionGame :: game
  StartTime :: int
  Players :: "player option list"

text \<open>
  The matchmaking goroutine is either at its \<open>select\<close>, inside \<open>createGame\<close> after the
  semaphore send succeeded, or has returned.
\<close>

datatype worker_pc = Selecting | Creating request request | Returned

text \<open>
  The broker state. \<open>queue\<close> is the content of the buffered channel (capacity 1000),
  \<open>gameSemaphore\<close> the number of elements in the semaphore channel (capacity
  \<open>maxConcurrentGames\<close>), \<open>chans c\<close> everything ever sent on reply channel \<open>c\<close>,
  \<open>supervisors\<close> the running \<open>manageGameSession\<close> goroutines, and \<open>crashed\<close> says that
  a goroutine panicked. The last three fields are history: \<open>arrivals\<close> lists the requests
  in the order their queue send succeeded, \<open>pairings\<close> the calls of \<open>createGame\<close>, and
  \<open>sessionsLog\<close> the calls that registered a session. No operation reads them.
\<close>

record broker =
  maxConcurrentGames :: int
  queue :: "request list"
  queueClosed :: bool
  ctxDone :: bool
  activeGames :: "int \<rightharpoonup> session"
  gameSemaphore :: nat
  chans :: "nat \<Rightarrow> response list"
  nextChan :: nat
  waitingPlayer :: "request option"
  worker :: worker_pc
  supervisors :: "session list"
  crashed :: bool
  arrivals :: "request list"
  pairings :: "(request \<times> request) list"
  sessionsLog :: "(request \<times> request) list"

definition queueCap :: nat where
  "queueCap = 1000"

text \<open>\<open>make(chan struct{}, n)\<close> panics for a negative \<open>n\<close>: then there is no broker.\<close>

definition NewGameBroker :: "int \<Rightarrow> broker option" where
  "NewGameBroker n =
     (if n < 0 then None
      else Some \<lparr>maxConcurrentGames = n, queue = [], queueClosed = False, ctxDone = False,
                 activeGames = Map.empty, gameSemaphore = 0, chans = (\<lambda>_. []), nextChan = 0,
                 waitingPlayer = None, worker = Selecting, supervisors = [], crashed = False,
                 arrivals = [], pairings = [], sessionsLog = []\<rparr>)"

definition GetActiveGameCount :: "broker \<Rightarrow> int" where
  "GetActiveGameCount b = int (card (dom (activeGames b)))"

definition GetQueueSize :: "broker \<Rightarrow> int" where
  "GetQueueSize b = int (length (queue b))"

definition GetAvailableSlots :: "broker \<Rightarrow> int" where
  "GetAvailableSlots b = int (gameSemaphore b)"

subsection \<open>Channel operations\<close>

text \<open>
  The non-blocking send on the semaphore (\<open>None\<close>: the \<open>default\<close> branch), the receive
  that releases a slot (\<open>None\<close>: the receive blocks on an empty channel), and the send
  of a response on a reply channel. A reply channel has a buffer of one response;
  \<open>chans\<close> keeps everything sent, and the bound of one response per channel proved below
  is what makes these sends never block.
\<close>

definition try_acquire :: "broker \<Rightarrow> broker option" where
  "try_acquire b =
     (if int (gameSemaphore b) < maxConcurrentGames b
      then Some (b\<lparr>gameSemaphore := gameSemaphore b + 1\<rparr>) else None)"

definition release :: "broker \<Rightarrow> broker option" where
  "release b =
     (if gameSemaphore b = 0 then None
      else Some (b\<lparr>gameSemaphore := gameSemaphore b - 1\<rparr>))"

definition respond :: "request \<Rightarrow> response \<Rightarrow> broker \<Rightarrow> broker" where
  "respond r resp b = b\<lparr>chans := (chans b)(Response r := chans b (Response r) @ [resp])\<rparr>"

definition errorResponse :: "error \<Rightarrow> response" where
  "errorResponse err = \<lparr>Game = None, Error = Some err\<rparr>"

definition gameResponse :: "game \<Rightarrow> response" where
  "gameResponse g = \<lparr>Game = Some g, Error = None\<rparr>"

definition respondWithError :: "request \<Rightarrow> request \<Rightarrow> error \<Rightarrow> broker \<Rightarrow> broker" where
  "respondWithError player1Req player2Req err b =
     respond player2Req (errorResponse err) (respond player1Req (errorResponse err) b)"

section \<open>The connection (type client)\<close>

text \<open>
  \<open>egress\<close> is the content of the outbound channel, made by \<open>NewClient\<close> with capacity 32
  and never closed. \<open>Write\<close> sends on it: with a full buffer the send blocks (\<open>None\<close>),
  otherwise the call returns \<open>(len(p), nil)\<close>. The write pump receives from the front.
\<close>

type_synonym byte = "8 word"

record client =
  egress :: "byte list list"

definition egressCap :: nat where
  "egressCap = 32"

definition NewClient :: client where
  "NewClient = \<lparr>egress = []\<rparr>"

definition Write :: "client \<Rightarrow> byte list \<Rightarrow> (client \<times> int \<times> error option) option" where
  "Write c p =
     (if length (egress c) < egressCap
      then Some (c\<lparr>egress := egress c @ [p]\<rparr>, int (length p), None)
      else None)"

definition egress_receive :: "client \<Rightarrow> (byte list \<times> client) option" where
  "egress_receive c =
     (case egress c of [] \<Rightarrow> None | msgBytes # rest \<Rightarrow> Some (msgBytes, c\<lparr>egress := rest\<rparr>))"

definition fullClient :: client where
  "fullClient = \<lparr>egress = replicate 32 []\<rparr>"

section \<open>The broker's goroutines\<close>

subsection \<open>RequestGame: the enqueue select\<close>

text \<open>
  The send on the queue when that branch of the first \<open>select\<close> of \<open>RequestGame\<close> is
  taken: a send on a closed channel panics, a send on a full buffer is not ready
  (\<open>None\<close>), otherwise the fresh request is appended to the buffer.
\<close>

definition RequestGame_send :: "player option \<Rightarrow> broker \<Rightarrow> broker option" where
  "RequestGame_send p b =
     (let request = \<lparr>Player = p, Response = nextChan b\<rparr>
      in if queueClosed b then Some (b\<lparr>crashed := True\<rparr>)
         else if length (queue b) < queueCap
         then Some (b\<lparr>queue := queue b @ [request], nextChan := nextChan b + 1,
                       arrivals := arrivals b @ [request]\<rparr>)
         else None)"

text \<open>
  The three branches of that \<open>select\<close>. \<open>elapsed\<close> is the time in nanoseconds since
  the \<open>select\<close> began; \<open>time.After(5 * time.Second)\<close> is ready from five seconds on.
  \<open>RequestGame_enqueue\<close> is the outcome when the given branch is taken, \<open>None\<close> when
  that branch is not ready.
\<close>

datatype enqueue_branch = QueueSend | After5s | CtxDoneBranch

definition fiveSeconds :: int where
  "fiveSeconds = 5 * 1000000000"

definition enqueue_ready :: "broker \<Rightarrow> int \<Rightarrow> enqueue_branch \<Rightarrow> bool" where
  "enqueue_ready b elapsed br =
     (case br of
        QueueSend \<Rightarrow> length (queue b) < queueCap \<or> queueClosed b
      | After5s \<Rightarrow> fiveSeconds \<le> elapsed
      | CtxDoneBranch \<Rightarrow> ctxDone b)"

definition RequestGame_enqueue ::
  "player option \<Rightarrow> broker \<Rightarrow> int \<Rightarrow> enqueue_branch \<Rightarrow> (error + broker) option" where
  "RequestGame_enqueue p b elapsed br =
     (if \<not> enqueue_ready b elapsed br then None
      else case br of
        QueueSend \<Rightarrow> map_option Inr (RequestGame_send p b)
      | After5s \<Rightarrow> Some (Inl ErrQueueFull)
      | CtxDoneBranch \<Rightarrow> Some (Inl ErrShuttingDown))"

text \<open>
  The second \<open>select\<close> of \<open>RequestGame\<close>, waiting on reply channel \<open>c\<close>: a response
  on the channel, the matchmaking timeout (30 seconds), or the cancellation of the
  broker's context. The result is the pair \<open>(*Game, error)\<close> that \<open>RequestGame\<close> returns.
\<close>

datatype wait_branch = ResponseReceived | AfterMatchmakingTimeout | WaitCtxDone

definition matchmakingTimeout :: int where
  "matchmakingTimeout = 30 * 1000000000"

definition RequestGame_wait ::
  "nat \<Rightarrow> broker \<Rightarrow> int \<Rightarrow> wait_branch \<Rightarrow> (game option \<times> error option) option" where
  "RequestGame_wait c b elapsed br =
     (case br of
        ResponseReceived \<Rightarrow>
          (case chans b c of
             [] \<Rightarrow> None
           | response # _ \<Rightarrow> Some (Game response, Error response))
      | AfterMatchmakingTimeout \<Rightarrow>
          if matchmakingTimeout \<le> elapsed then Some (None, Some ErrMatchmakingTimeout) else None
      | WaitCtxDone \<Rightarrow> if ctxDone b then Some (None, Some ErrShuttingDown) else None)"

subsection \<open>createGame\<close>

text \<open>
  \<open>createGame\<close> begins with the non-blocking send on the semaphore. Its \<open>default\<close>
  branch is \<open>createGame_reject\<close>; the code after a successful send is
  \<open>createGame_build\<close>, which takes the two readings of the clock as arguments and is
  \<open>None\<close> only where the releasing receive would block.
\<close>

definition createGame_reject :: "request \<Rightarrow> request \<Rightarrow> broker \<Rightarrow> broker" where
  "createGame_reject player1Req player2Req b =
     respond player2Req (errorResponse ErrServerAtCapacity)
       (respond player1Req (errorResponse ErrServerAtCapacity) b)"

definition createGame_build ::
  "int \<Rightarrow> int \<Rightarrow> request \<Rightarrow> request \<Rightarrow> broker \<Rightarrow> broker option" where
  "createGame_build gameID now player1Req player2Req b =
     (case AddPlayer (NewGame gameID) (Player player1Req) of
        Inl err \<Rightarrow> release (respondWithError player1Req player2Req err b)
      | Inr g1 \<Rightarrow>
         (case AddPlayer g1 (Player player2Req) of
            Inl err \<Rightarrow> release (respondWithError player1Req player2Req err b)
          | Inr g2 \<Rightarrow>
             (case StartGame g2 of
                Inl err \<Rightarrow> release (respondWithError player1Req player2Req err b)
              | Inr g \<Rightarrow>
                 (let s = \<lparr>SessionGame = g, StartTime = now,
                           Players = [Player player1Req, Player player2Req]\<rparr>;
                      b1 = b\<lparr>activeGames := (activeGames b)(gameID \<mapsto> s)\<rparr>;
                      b2 = b1\<lparr>supervisors := supervisors b1 @ [s],
                              sessionsLog := sessionsLog b1 @ [(player1Req, player2Req)]\<rparr>
                  in Some (respond player2Req (gameResponse g)
                             (respond player1Req (gameResponse g) b2))))))"

definition createGame ::
  "int \<Rightarrow> int \<Rightarrow> request \<Rightarrow> request \<Rightarrow> broker \<Rightarrow> broker option" where
  "createGame gameID now player1Req player2Req b =
     (case try_acquire b of
        None \<Rightarrow> Some (createGame_reject player1Req player2Req b)
      | Some b' \<Rightarrow> createGame_build gameID now player1Req player2Req b')"

subsection \<open>matchmakingWorker\<close>

text \<open>
  One iteration of the loop when the \<open>select\<close> takes the queue branch. An empty open
  queue is not ready; an empty closed queue yields nil and the worker returns. A first
  request is kept in \<open>waitingPlayer\<close>, and the log line dereferences its player, which
  panics on nil. A second request calls \<open>createGame\<close>: the iteration stops after the
  semaphore send, so that other goroutines may run before \<open>worker_build\<close> finishes the
  call and clears \<open>waitingPlayer\<close>.
\<close>

definition worker_receive :: "broker \<Rightarrow> broker option" where
  "worker_receive b =
     (case queue b of
        [] \<Rightarrow> if queueClosed b then Some (b\<lparr>worker := Returned\<rparr>) else None
      | request # rest \<Rightarrow>
          (let b1 = b\<lparr>queue := rest\<rparr>
           in case waitingPlayer b1 of
                None \<Rightarrow>
                  (case Player request of
                     None \<Rightarrow> Some (b1\<lparr>waitingPlayer := Some request, crashed := True\<rparr>)
                   | Some _ \<Rightarrow> Some (b1\<lparr>waitingPlayer := Some request\<rparr>))
              | Some w \<Rightarrow>
                  (let b2 = b1\<lparr>pairings := pairings b1 @ [(w, request)]\<rparr>
                   in case try_acquire b2 of
                        Some b3 \<Rightarrow> Some (b3\<lparr>worker := Creating w request\<rparr>)
                      | None \<Rightarrow>
                          Some ((createGame_reject w request b2)\<lparr>waitingPlayer := None\<rparr>))))"

definition worker_build :: "int \<Rightarrow> int \<Rightarrow> broker \<Rightarrow> broker option" where
  "worker_build gameID now b =
     (case worker b of
        Creating player1Req player2Req \<Rightarrow>
          map_option (\<lambda>b'. b'\<lparr>waitingPlayer := None, worker := Selecting\<rparr>)
            (createGame_build gameID now player1Req player2Req b)
      | _ \<Rightarrow> None)"

text \<open>The \<open>ctx.Done()\<close> branch: ready once the broker's context is cancelled.\<close>

definition worker_ctx_done :: "broker \<Rightarrow> broker option" where
  "worker_ctx_done b =
     (if ctxDone b
      then Some ((case waitingPlayer b of
                    Some w \<Rightarrow> respond w (errorResponse ErrMatchmakingCancelled) b
                  | None \<Rightarrow> b)\<lparr>worker := Returned\<rparr>)
      else None)"

subsection \<open>manageGameSession and cleanupStaleGames\<close>

text \<open>
  The deferred cleanup of the \<open>i\<close>-th running supervisor: it deletes the entry under the
  game's identifier, cancels the session and receives from the semaphore. A supervisor
  leaves its loop when the game is finished or its context is done; the model lets it
  leave at any time.
\<close>

definition session_cleanup :: "nat \<Rightarrow> broker \<Rightarrow> broker option" where
  "session_cleanup i b =
     (if i < length (supervisors b)
      then (let s = supervisors b ! i;
                b1 = b\<lparr>activeGames := (activeGames b)(GameID (SessionGame s) := None)\<rparr>
            in map_option
                 (\<lambda>b2. b2\<lparr>supervisors := take i (supervisors b2) @ drop (Suc i) (supervisors b2)\<rparr>)
                 (release b1))
      else None)"

definition gameTimeout :: int where
  "gameTimeout = 30 * 60 * 1000000000"

definition cleanupStaleGames :: "int \<Rightarrow> broker \<Rightarrow> broker" where
  "cleanupStaleGames now b =
     b\<lparr>activeGames :=
         (\<lambda>k. case activeGames b k of
                 None \<Rightarrow> None
               | Some s \<Rightarrow> if now - StartTime s > gameTimeout then None else Some s)\<rparr>"

subsection \<open>Interleavings\<close>

text \<open>
  An execution of the broker is a list of atomic actions of its goroutines and callers,
  in the order they happen. \<open>step\<close> is \<open>None\<close> where the action is not ready or the
  process has crashed.
\<close>

datatype action =
    Send "player option"
  | StopCancel
  | StopCloseQueue
  | WorkerReceive
  | WorkerCtxDone
  | WorkerBuild int int
  | SessionCleanup nat
  | CleanupStale int

definition step :: "action \<Rightarrow> broker \<Rightarrow> broker option" where
  "step a b =
     (if crashed b then None
      else case a of
        Send p \<Rightarrow> RequestGame_send p b
      | StopCancel \<Rightarrow> Some (b\<lparr>ctxDone := True\<rparr>)
      | StopCloseQueue \<Rightarrow>
          if queueClosed b then Some (b\<lparr>crashed := True\<rparr>) else Some (b\<lparr>queueClosed := True\<rparr>)
      | WorkerReceive \<Rightarrow> if worker b = Selecting then worker_receive b else None
      | WorkerCtxDone \<Rightarrow> if worker b = Selecting then worker_ctx_done b else None
      | WorkerBuild gameID now \<Rightarrow> worker_build gameID now b
      | SessionCleanup i \<Rightarrow> session_cleanup i b
      | CleanupStale now \<Rightarrow> Some (cleanupStaleGames now b))"

fun exec :: "action list \<Rightarrow> broker \<Rightarrow> broker option" where
  "exec [] b = Some b"
| "exec (a # as) b = (case step a b of None \<Rightarrow> None | Some b' \<Rightarrow> exec as b')"

definition run :: "int \<Rightarrow> action list \<Rightarrow> broker option" where
  "run n as = (case NewGameBroker n of None \<Rightarrow> None | Some b \<Rightarrow> exec as b)"

text \<open>The tokens held: one per running supervisor, one while \<open>createGame\<close> builds.\<close>

fun is_creating :: "worker_pc \<Rightarrow> bool" where
  "is_creating (Creating _ _) = True"
| "is_creating _ = False"

definition tokens_held :: "broker \<Rightarrow> nat" where
  "tokens_held b = length (supervisors b) + (if is_creating (worker b) then 1 else 0)"

text \<open>
  The specification's reading of the telemetry for admission tokens: the configured
  maximum minus the tokens held.
\<close>

definition available_slots_spec :: "broker \<Rightarrow> int" where
  "available_slots_spec b = maxConcurrentGames b - int (tokens_held b)"

text \<open>
  The three construction steps of \<open>createGame\<close> in the order of the source, with the
  first error they meet; and the states an execution can pass through.
\<close>

definition construct :: "int \<Rightarrow> request \<Rightarrow> request \<Rightarrow> error + game" where
  "construct gameID player1Req player2Req =
     (case AddPlayer (NewGame gameID) (Player player1Req) of
        Inl err \<Rightarrow> Inl err
      | Inr g1 \<Rightarrow>
         (case AddPlayer g1 (Player player2Req) of
            Inl err \<Rightarrow> Inl err
          | Inr g2 \<Rightarrow> StartGame g2))"

text \<open>
  The calls of \<open>createGame\<close> that have returned, and the number of requests they
  answered.
\<close>

definition completed :: "broker \<Rightarrow> (request \<times> request) list" where
  "completed b = (if is_creating (worker b) then butlast (pairings b) else pairings b)"

definition answered :: "broker \<Rightarrow> nat" where
  "answered b = 2 * length (completed b)"

section \<open>The connection registry (type manager)\<close>

text \<open>
  Connections and cancellation handles are identified by numbers; \<open>clients\<close> is the map
  from \<open>Client\<close> to \<open>context.CancelFunc\<close> as an association list with distinct keys.
  \<open>ServeWS\<close> registers each connection with the handle that \<open>context.WithCancel\<close>
  returned, so a stored handle is never nil. \<open>effects\<close> records the calls the manager
  makes on its collaborators: a cancellation handle invoked, a connection closed, and the
  send on a request's \<open>done\<close> channel that lets the caller return.
\<close>

datatype effect = CancelCalled nat | CloseCalled nat | DoneSignalled nat

record manager =
  clients :: "(nat \<times> nat) list"
  effects :: "effect list"

definition NewManager :: manager where
  "NewManager = \<lparr>clients = [], effects = []\<rparr>"

definition Clients :: "manager \<Rightarrow> nat list" where
  "Clients m = map fst (clients m)"

definition cleanupClient :: "nat \<Rightarrow> manager \<Rightarrow> manager" where
  "cleanupClient c m =
     (let m1 = (case map_of (clients m) c of
                  Some cancel \<Rightarrow> m\<lparr>effects := effects m @ [CancelCalled cancel]\<rparr>
                | None \<Rightarrow> m)
      in m1\<lparr>clients := AList.delete c (clients m1),
             effects := effects m1 @ [CloseCalled c]\<rparr>)"

text \<open>
  What the \<open>select\<close> of \<open>Run\<close> receives: the cancellation of its context, a register
  request (cancel handle, client) or an unregister request (client). \<open>Run_iteration\<close> is
  one pass through the loop body. The \<open>range\<close> over the map visits every key once;
  \<open>cleanupClient\<close> deletes only the key being visited.
\<close>

datatype mgr_event = CtxDone | RegisterReq nat nat | UnregisterReq nat

definition Run_iteration :: "mgr_event \<Rightarrow> manager \<Rightarrow> manager" where
  "Run_iteration ev m =
     (case ev of
        CtxDone \<Rightarrow> fold cleanupClient (map fst (clients m)) m
      | RegisterReq cancel c \<Rightarrow>
          (let m1 = m\<lparr>clients := AList.update c cancel (clients m)\<rparr>
           in m1\<lparr>effects := effects m1 @ [DoneSignalled c]\<rparr>)
      | UnregisterReq c \<Rightarrow>
          (let m1 = (if map_of (clients m) c \<noteq> None then cleanupClient c m else m)
           in m1\<lparr>effects := effects m1 @ [DoneSignalled c]\<rparr>))"

text \<open>
  \<open>Run\<close> is \<open>for { select { ... } }\<close> with no \<open>return\<close> or \<open>break\<close> in any branch.
  With fuel for the number of iterations and the list of events its \<open>select\<close> receives,
  the result is \<open>Some\<close> only if the function returns; \<open>Run_state\<close> is the state the loop
  has reached after the events.
\<close>

fun Run :: "nat \<Rightarrow> mgr_event list \<Rightarrow> manager \<Rightarrow> manager option" where
  "Run 0 evs m = None"
| "Run (Suc n) [] m = None"
| "Run (Suc n) (ev # evs) m = Run n evs (Run_iteration ev m)"

definition Run_state :: "mgr_event list \<Rightarrow> manager \<Rightarrow> manager" where
  "Run_state evs m = fold Run_iteration evs m"

text \<open>
  The specification's reading of the live set after a sequence of requests: the
  connections with a register request that no later unregister request follows.
\<close>

definition registered_not_unregistered :: "mgr_event list \<Rightarrow> nat set" where
  "registered_not_unregistered ops =
     {c. \<exists>before cancel after.
           ops = before @ RegisterReq cancel c # after \<and> UnregisterReq c \<notin> set after}"

section \<open>Invariants of the broker\<close>

text \<open>
  Four properties that every step preserves. \<open>inv_tokens\<close>: the semaphore holds one
  token per running supervisor and one for a call of \<open>createGame\<close> in progress, and
  never more than its capacity. \<open>inv_queue k\<close>: the worker has consumed the first \<open>k\<close>
  arrivals, the queue holds the others in order, the \<open>i\<close>-th reply channel belongs to
  the \<open>i\<close>-th arrival, and the consumed requests are the pairings made so far, two by
  two, plus the waiting request if there is one. \<open>inv_log\<close>: the sessions created are
  among the calls of \<open>createGame\<close> that have returned, in order. \<open>inv_chans\<close>: the
  requests of those calls have one response each, and no other channel has any, except
  that of a waiting request cancelled when the worker returned.
\<close>

definition inv_tokens :: "broker \<Rightarrow> bool" where
  "inv_tokens b \<longleftrightarrow>
     gameSemaphore b = tokens_held b \<and> int (gameSemaphore b) \<le> maxConcurrentGames b"

definition inv_queue :: "nat \<Rightarrow> broker \<Rightarrow> bool" where
  "inv_queue k b \<longleftrightarrow>
     map Response (arrivals b) = [0..<nextChan b]
   \<and> k \<le> length (arrivals b) \<and> queue b = drop k (arrivals b)
   \<and> (\<forall>n < length (pairings b).
         pairings b ! n = (arrivals b ! (2 * n), arrivals b ! (2 * n + 1)))
   \<and> (\<forall>p1 p2. worker b = Creating p1 p2 \<longrightarrow>
         waitingPlayer b = Some p1 \<and> pairings b \<noteq> [] \<and> last (pairings b) = (p1, p2))
   \<and> k = 2 * length (pairings b)
         + (if \<not> is_creating (worker b) \<and> waitingPlayer b \<noteq> None then 1 else 0)
   \<and> (\<forall>w. \<not> is_creating (worker b) \<and> waitingPlayer b = Some w \<longrightarrow>
         w = arrivals b ! (2 * length (pairings b)))"

definition inv_log :: "broker \<Rightarrow> bool" where
  "inv_log b \<longleftrightarrow> subseq (sessionsLog b) (completed b)"

definition inv_chans :: "broker \<Rightarrow> bool" where
  "inv_chans b \<longleftrightarrow>
     (\<forall>c < answered b. length (chans b c) = 1)
   \<and> (\<forall>c \<ge> answered b.
         chans b c = []
         \<or> (worker b = Returned \<and> c = answered b \<and> waitingPlayer b \<noteq> None
            \<and> chans b c = [errorResponse ErrMatchmakingCancelled]))"

definition inv :: "nat \<Rightarrow> broker \<Rightarrow> bool" where
  "inv k b \<longleftrightarrow> inv_queue k b \<and> inv_log b \<and> inv_chans b \<and> inv_tokens b"

text \<open>The responses delivered so far on reply channel \<open>c\<close>.\<close>

definition replies :: "nat \<Rightarrow> broker \<Rightarrow> response list" where
  "replies c b = chans b c"

section \<open>Example executions\<close>

definition alice :: player where "alice = \<lparr>ID = ''player1'', Name = ''Alice''\<rparr>"
definition bob :: player where "bob = \<lparr>ID = ''player2'', Name = ''Bob''\<rparr>"
definition carol :: player where "carol = \<lparr>ID = ''player3'', Name = ''Carol''\<rparr>"
definition dave :: player where "dave = \<lparr>ID = ''player4'', Name = ''Dave''\<rparr>"
definition erin :: player where "erin = \<lparr>ID = ''player5'', Name = ''Erin''\<rparr>"
definition frank :: player where "frank = \<lparr>ID = ''player6'', Name = ''Frank''\<rparr>"

definition C1_acts :: "action list" where
  "C1_acts = [Send (Some alice), Send (Some bob), WorkerReceive, WorkerReceive,
              WorkerBuild 100 101]"

definition nobody_req :: request where "nobody_req = \<lparr>Player = None, Response = 1\<rparr>"

text \<open>
  One slot: the first two arrivals get it, and the third is waiting with the fourth at
  the head of the queue while their session runs.
\<close>

definition C6_acts :: "action list" where
  "C6_acts =
     [Send (Some alice), Send (Some bob), Send (Some carol), Send (Some dave),
      WorkerReceive, WorkerReceive, WorkerBuild 100 101, WorkerReceive]"

definition C7_acts :: "action list" where
  "C7_acts = [Send (Some alice), Send None, WorkerReceive, WorkerReceive]"

definition C2_acts :: "action list" where
  "C2_acts = [Send (Some alice), StopCancel, WorkerCtxDone]"

definition C2_closed_acts :: "action list" where
  "C2_closed_acts = [Send (Some alice), WorkerReceive, StopCancel, StopCloseQueue, WorkerReceive]"

definition C2_witness_acts :: "action list" where
  "C2_witness_acts =
     [Send (Some alice), Send (Some bob), WorkerReceive, WorkerReceive,
      Send (Some alice), WorkerReceive, Send (Some bob), StopCancel]"

definition C3_acts :: "action list" where
  "C3_acts =
     [Send (Some alice), Send (Some bob), Send (Some carol), Send (Some dave),
      WorkerReceive, WorkerReceive, WorkerBuild 100 101,
      WorkerReceive, WorkerReceive,
      SessionCleanup 0,
      Send (Some erin), Send (Some frank),
      WorkerReceive, WorkerReceive, WorkerBuild 200 201]"

text \<open>The broker after \<open>queueCap\<close> calls of \<open>RequestGame\<close> while no worker runs.\<close>

definition fullQueueBroker :: broker where
  "fullQueueBroker =
     \<lparr>maxConcurrentGames = 1,
      queue = map (\<lambda>i. \<lparr>Player = Some alice, Response = i\<rparr>) [0..<queueCap],
      queueClosed = False, ctxDone = False,
      activeGames = Map.empty, gameSemaphore = 0, chans = (\<lambda>_. []), nextChan = queueCap,
      waitingPlayer = None, worker = Selecting, supervisors = [], crashed = False,
      arrivals = map (\<lambda>i. \<lparr>Player = Some alice, Response = i\<rparr>) [0..<queueCap],
      pairings = [], sessionsLog = []\<rparr>"

text \<open>Requests to the registry: two connections, then one of them unregistered twice.\<close>

definition C8_ops :: "mgr_event list" where
  "C8_ops = [RegisterReq 10 1, RegisterReq 20 2, UnregisterReq 1, UnregisterReq 1]"

definition C5_events :: "mgr_event list" where
  "C5_events = [RegisterReq 10 1, RegisterReq 20 2, CtxDone]"

section \<open>Telemetry\<close>

text \<open>
  C9. The claim: \<open>GetAvailableSlots\<close> returns the configured maximum minus the tokens
  held. The code returns the length of the semaphore channel, which is the number of
  tokens held: on a fresh broker for five games it reports 0 where five slots are free.
\<close>

theorem C9_GetAvailableSlots_fresh_broker:
  "map_option GetAvailableSlots (NewGameBroker 5) = Some 0
   \<and> map_option available_slots_spec (NewGameBroker 5) = Some 5"
  by (simp add: NewGameBroker_def GetAvailableSlots_def available_slots_spec_def tokens_held_def)

section \<open>Writing to a connection\<close>

lemma Write_room:
  "length (egress c) < egressCap \<Longrightarrow>
     Write c p = Some (c\<lparr>egress := egress c @ [p]\<rparr>, int (length p), None)"
  by (simp add: Write_def)

lemma Write_full: "length (egress c) = egressCap \<Longrightarrow> Write c p = None"
  by (simp add: Write_def)

lemma Write_result: "Write c p = Some r \<Longrightarrow> snd r = (int (length p), None)"
  by (auto simp: Write_def split: if_splits)

lemma receive_full:
  assumes "length (egress c) = egressCap"
  shows "\<exists>m c'. egress_receive c = Some (m, c') \<and> length (egress c') < egressCap"
proof (cases "egress c")
  case Nil
  with assms show ?thesis by (simp add: egressCap_def)
next
  case (Cons m rest)
  with assms have "length rest < egressCap" by simp
  with Cons show ?thesis by (simp add: egress_receive_def)
qed

text \<open>
  C10. For every byte slice \<open>p\<close>, \<open>Write\<close> has no error result: with room in the
  outbound queue (capacity 32) it returns \<open>(len(p), nil)\<close> and has queued \<open>p\<close> at the
  back; with a full queue it blocks, and once the write pump has received one frame the
  call returns \<open>(len(p), nil)\<close>.
\<close>

theorem C10_Write_always_succeeds:
  "(length (egress c) < 32 \<longrightarrow>
      Write c p = Some (c\<lparr>egress := egress c @ [p]\<rparr>, int (length p), None))
   \<and> (length (egress c) = 32 \<longrightarrow>
      Write c p = None
      \<and> (\<exists>m c'. egress_receive c = Some (m, c')
            \<and> Write c' p = Some (c'\<lparr>egress := egress c' @ [p]\<rparr>, int (length p), None)))
   \<and> (\<forall>r. Write c p = Some r \<longrightarrow> snd r = (int (length p), None))
   \<and> egress NewClient = [] \<and> egressCap = 32"
proof (intro conjI impI allI)
  assume "length (egress c) < 32"
  then show "Write c p = Some (c\<lparr>egress := egress c @ [p]\<rparr>, int (length p), None)"
    by (simp add: Write_room egressCap_def)
next
  assume "length (egress c) = 32"
  then show "Write c p = None" by (simp add: Write_full egressCap_def)
next
  assume "length (egress c) = 32"
  then have "length (egress c) = egressCap" by (simp add: egressCap_def)
  from receive_full [OF this] obtain m c' where
    r: "egress_receive c = Some (m, c')" and l: "length (egress c') < egressCap" by blast
  from Write_room [OF l] r
  show "\<exists>m c'. egress_receive c = Some (m, c')
            \<and> Write c' p = Some (c'\<lparr>egress := egress c' @ [p]\<rparr>, int (length p), None)"
    by blast
next
  fix r assume "Write c p = Some r"
  then show "snd r = (int (length p), None)" by (rule Write_result)
next
  show "egress NewClient = []" by (simp add: NewClient_def)
next
  show "egressCap = 32" by (simp add: egressCap_def)
qed

theorem C10_Write_always_succeeds_witness:
  "Write NewClient [1, 2, 3] = Some (NewClient\<lparr>egress := egress NewClient @ [[1, 2, 3]]\<rparr>, int (length [1, 2, 3 :: byte]), None)
   \<and> length (egress fullClient) = 32 \<and> Write fullClient [7] = None"
proof -
  have a: "length (egress NewClient) < 32" by (simp add: NewClient_def)
  have b: "length (egress fullClient) = 32" by (simp add: fullClient_def)
  from C10_Write_always_succeeds [of NewClient "[1, 2, 3]"] a
  have 1: "Write NewClient [1, 2, 3] = Some (NewClient\<lparr>egress := egress NewClient @ [[1, 2, 3]]\<rparr>, int (length [1, 2, 3 :: byte]), None)"
    by blast
  from C10_Write_always_succeeds [of fullClient "[7]"] b
  have 2: "Write fullClient [7] = None"
    by blast
  from 1 2 b show ?thesis by blast
qed

section \<open>Executions of the broker\<close>

lemma respond_fields [simp]:
  "maxConcurrentGames (respond r x b) = maxConcurrentGames b"
  "queue (respond r x b) = queue b"
  "queueClosed (respond r x b) = queueClosed b"
  "ctxDone (respond r x b) = ctxDone b"
  "activeGames (respond r x b) = activeGames b"
  "gameSemaphore (respond r x b) = gameSemaphore b"
  "nextChan (respond r x b) = nextChan b"
  "waitingPlayer (respond r x b) = waitingPlayer b"
  "worker (respond r x b) = worker b"
  "supervisors (respond r x b) = supervisors b"
  "crashed (respond r x b) = crashed b"
  "arrivals (respond r x b) = arrivals b"
  "pairings (respond r x b) = pairings b"
  "sessionsLog (respond r x b) = sessionsLog b"
  by (simp_all add: respond_def)

lemma respond_chans:
  "chans (respond r x b) c = (if c = Response r then chans b c @ [x] else chans b c)"
  by (simp add: respond_def)

lemma build_tokens:
  assumes "inv_tokens b" "worker b = Creating p1 p2"
  shows "\<exists>b'. createGame_build gid now p1 p2 b = Some b'
           \<and> gameSemaphore b' = length (supervisors b')
           \<and> gameSemaphore b' \<le> gameSemaphore b
           \<and> maxConcurrentGames b' = maxConcurrentGames b"
  using assms
  by (auto simp: inv_tokens_def tokens_held_def createGame_build_def respondWithError_def
        release_def Let_def split: sum.splits)

lemma step_max: "step a b = Some b' \<Longrightarrow> maxConcurrentGames b' = maxConcurrentGames b"
  by (cases a)
     (auto simp: step_def RequestGame_send_def worker_receive_def worker_ctx_done_def
        worker_build_def createGame_build_def respondWithError_def release_def
        session_cleanup_def cleanupStaleGames_def try_acquire_def createGame_reject_def
        Let_def split: if_splits list.splits option.splits worker_pc.splits sum.splits)



lemma Response_nth:
  assumes "map Response xs = [0..<n]" "i < n"
  shows "Response (xs ! i) = i"
proof -
  from assms(1) have len: "length xs = n" by (metis length_map length_upt diff_zero)
  with assms(2) have "map Response xs ! i = Response (xs ! i)" by simp
  with assms show ?thesis by simp
qed

lemma queue_head:
  assumes "drop k xs = r # rest"
  shows "k < length xs \<and> r = xs ! k \<and> rest = drop (Suc k) xs"
proof -
  from assms have k: "k < length xs" by (cases "k < length xs") auto
  from Cons_nth_drop_Suc [OF k] assms show ?thesis using k by simp
qed

lemma inv_len: "inv_queue k b \<Longrightarrow> length (arrivals b) = nextChan b"
  unfolding inv_queue_def by (metis length_map length_upt diff_zero)

lemma inv_Response:
  assumes "inv_queue k b" "i < length (arrivals b)"
  shows "Response (arrivals b ! i) = i"
proof -
  from assms(1) have m: "map Response (arrivals b) = [0..<nextChan b]"
    unfolding inv_queue_def by blast
  from inv_len [OF assms(1)] assms(2) have "i < nextChan b" by simp
  from Response_nth [OF m this] show ?thesis .
qed

lemma pairs_bound: "inv_queue k b \<Longrightarrow> 2 * length (pairings b) \<le> k"
  by (simp add: inv_queue_def)

lemma inv_queueI:
  assumes "map Response (arrivals b) = [0..<nextChan b]"
    "k \<le> length (arrivals b)" "queue b = drop k (arrivals b)"
    "\<And>n. n < length (pairings b) \<Longrightarrow>
         pairings b ! n = (arrivals b ! (2 * n), arrivals b ! (2 * n + 1))"
    "\<And>p1 p2. worker b = Creating p1 p2 \<Longrightarrow>
         waitingPlayer b = Some p1 \<and> pairings b \<noteq> [] \<and> last (pairings b) = (p1, p2)"
    "k = 2 * length (pairings b)
         + (if \<not> is_creating (worker b) \<and> waitingPlayer b \<noteq> None then 1 else 0)"
    "\<And>w. \<not> is_creating (worker b) \<Longrightarrow> waitingPlayer b = Some w \<Longrightarrow>
         w = arrivals b ! (2 * length (pairings b))"
  shows "inv_queue k b"
  unfolding inv_queue_def using assms by blast

lemma inv_queueD:
  assumes "inv_queue k b"
  shows "map Response (arrivals b) = [0..<nextChan b]"
    "k \<le> length (arrivals b)" "queue b = drop k (arrivals b)"
    "\<And>n. n < length (pairings b) \<Longrightarrow>
         pairings b ! n = (arrivals b ! (2 * n), arrivals b ! (2 * n + 1))"
    "\<And>p1 p2. worker b = Creating p1 p2 \<Longrightarrow>
         waitingPlayer b = Some p1 \<and> pairings b \<noteq> [] \<and> last (pairings b) = (p1, p2)"
    "k = 2 * length (pairings b)
         + (if \<not> is_creating (worker b) \<and> waitingPlayer b \<noteq> None then 1 else 0)"
    "\<And>w. \<not> is_creating (worker b) \<Longrightarrow> waitingPlayer b = Some w \<Longrightarrow>
         w = arrivals b ! (2 * length (pairings b))"
  using assms unfolding inv_queue_def by blast+

lemma send_queue:
  assumes inv: "inv_queue k b" and s: "RequestGame_send p b = Some b'"
  shows "inv_queue k b'"
proof (cases "queueClosed b")
  case True
  with s have "b' = b\<lparr>crashed := True\<rparr>" by (simp add: RequestGame_send_def)
  with inv show ?thesis by (simp add: inv_queue_def)
next
  case False
  note d = inv_queueD [OF inv]
  note len = inv_len [OF inv]
  from pairs_bound [OF inv] d(2) have pb: "2 * length (pairings b) \<le> length (arrivals b)"
    by simp
  define r where "r = \<lparr>Player = p, Response = nextChan b\<rparr>"
  from False s have b': "b' = b\<lparr>queue := queue b @ [r],
      nextChan := nextChan b + 1, arrivals := arrivals b @ [r]\<rparr>"
    by (simp add: RequestGame_send_def Let_def r_def split: if_splits)
  have nth: "\<And>i. i < length (arrivals b) \<Longrightarrow> (arrivals b @ [r]) ! i = arrivals b ! i"
    by (simp add: nth_append)
  show ?thesis
  proof (rule inv_queueI)
    show "map Response (arrivals b') = [0..<nextChan b']"
      using d(1) by (simp add: b' r_def)
    show "k \<le> length (arrivals b')" using d(2) by (simp add: b')
    show "queue b' = drop k (arrivals b')" using d(2,3) by (simp add: b')
    show "pairings b' ! n = (arrivals b' ! (2 * n), arrivals b' ! (2 * n + 1))"
      if "n < length (pairings b')" for n
    proof -
      from that have n: "n < length (pairings b)" by (simp add: b')
      with pb have "2 * n < length (arrivals b)" "2 * n + 1 < length (arrivals b)" by simp_all
      with d(4) [OF n] nth show ?thesis by (simp add: b')
    qed
    show "waitingPlayer b' = Some p1 \<and> pairings b' \<noteq> [] \<and> last (pairings b') = (p1, p2)"
      if "worker b' = Creating p1 p2" for p1 p2
      using that d(5) by (simp add: b')
    show "k = 2 * length (pairings b')
         + (if \<not> is_creating (worker b') \<and> waitingPlayer b' \<noteq> None then 1 else 0)"
      using d(6) by (simp add: b')
    show "w = arrivals b' ! (2 * length (pairings b'))"
      if "\<not> is_creating (worker b')" "waitingPlayer b' = Some w" for w
    proof -
      from that have *: "\<not> is_creating (worker b)" "waitingPlayer b = Some w" by (simp_all add: b')
      with d(6) d(2) have "2 * length (pairings b) < length (arrivals b)" by simp
      with d(7) [OF *] nth show ?thesis by (simp add: b')
    qed
  qed
qed

lemma send_other:
  assumes "RequestGame_send p b = Some b'"
  shows "chans b' = chans b" "worker b' = worker b" "pairings b' = pairings b"
    "sessionsLog b' = sessionsLog b" "waitingPlayer b' = waitingPlayer b"
    "gameSemaphore b' = gameSemaphore b" "supervisors b' = supervisors b"
    "maxConcurrentGames b' = maxConcurrentGames b"
  using assms by (auto simp: RequestGame_send_def Let_def split: if_splits)



lemma inv_crashed [simp]:
  "inv_queue k (b\<lparr>crashed := x\<rparr>) = inv_queue k b"
  "inv_log (b\<lparr>crashed := x\<rparr>) = inv_log b"
  "inv_chans (b\<lparr>crashed := x\<rparr>) = inv_chans b"
  "inv_tokens (b\<lparr>crashed := x\<rparr>) = inv_tokens b"
  by (simp_all add: inv_queue_def inv_log_def inv_chans_def inv_tokens_def completed_def
        answered_def tokens_held_def)

lemma worker_receive_cases:
  assumes "worker_receive b = Some b'"
  obtains
    (closed) "queue b = []" "queueClosed b" "b' = b\<lparr>worker := Returned\<rparr>"
  | (first) r rest where "queue b = r # rest" "waitingPlayer b = None"
      "b' = b\<lparr>queue := rest, waitingPlayer := Some r\<rparr>
       \<or> b' = b\<lparr>queue := rest, waitingPlayer := Some r, crashed := True\<rparr>"
  | (admit) r rest w where "queue b = r # rest" "waitingPlayer b = Some w"
      "int (gameSemaphore b) < maxConcurrentGames b"
      "b' = b\<lparr>queue := rest, pairings := pairings b @ [(w, r)],
               gameSemaphore := gameSemaphore b + 1, worker := Creating w r\<rparr>"
  | (reject) r rest w where "queue b = r # rest" "waitingPlayer b = Some w"
      "\<not> int (gameSemaphore b) < maxConcurrentGames b"
      "b' = (createGame_reject w r (b\<lparr>queue := rest, pairings := pairings b @ [(w, r)]\<rparr>))
              \<lparr>waitingPlayer := None\<rparr>"
  using assms
  by (auto simp: worker_receive_def Let_def try_acquire_def
        split: list.splits option.splits if_splits)

lemma inv_queue_frame:
  assumes inv: "inv_queue k b"
    and eq: "arrivals b' = arrivals b" "nextChan b' = nextChan b" "queue b' = queue b"
      "pairings b' = pairings b" "waitingPlayer b' = waitingPlayer b"
    and w: "worker b' = worker b \<or> (\<not> is_creating (worker b) \<and> \<not> is_creating (worker b'))"
  shows "inv_queue k b'"
proof -
  note d = inv_queueD [OF inv]
  from w have c: "is_creating (worker b') = is_creating (worker b)" by auto
  show ?thesis
  proof (rule inv_queueI)
    show "map Response (arrivals b') = [0..<nextChan b']" using d(1) by (simp add: eq)
    show "k \<le> length (arrivals b')" using d(2) by (simp add: eq)
    show "queue b' = drop k (arrivals b')" using d(3) by (simp add: eq)
    show "pairings b' ! n = (arrivals b' ! (2 * n), arrivals b' ! (2 * n + 1))"
      if "n < length (pairings b')" for n
      using d(4) [of n] that by (simp add: eq)
    show "waitingPlayer b' = Some p1 \<and> pairings b' \<noteq> [] \<and> last (pairings b') = (p1, p2)"
      if "worker b' = Creating p1 p2" for p1 p2
    proof -
      from that w have "worker b = Creating p1 p2" by auto
      from d(5) [OF this] show ?thesis by (simp add: eq)
    qed
    show "k = 2 * length (pairings b')
         + (if \<not> is_creating (worker b') \<and> waitingPlayer b' \<noteq> None then 1 else 0)"
      using d(6) by (simp add: eq c)
    show "x = arrivals b' ! (2 * length (pairings b'))"
      if "\<not> is_creating (worker b')" "waitingPlayer b' = Some x" for x
      using d(7) [of x] that by (simp add: eq c)
  qed
qed

lemma receive_first_queue:
  assumes inv: "inv_queue k b" and w: "worker b = Selecting" and q: "queue b = r # rest"
    and wp: "waitingPlayer b = None"
  shows "inv_queue (Suc k) (b\<lparr>queue := rest, waitingPlayer := Some r\<rparr>)"
proof -
  note d = inv_queueD [OF inv]
  from d(3) q have "drop k (arrivals b) = r # rest" by simp
  from queue_head [OF this] have h: "k < length (arrivals b)" "r = arrivals b ! k"
    "rest = drop (Suc k) (arrivals b)" by simp_all
  from d(6) w wp have k: "k = 2 * length (pairings b)" by simp
  let ?b = "b\<lparr>queue := rest, waitingPlayer := Some r\<rparr>"
  show ?thesis
  proof (rule inv_queueI)
    show "map Response (arrivals ?b) = [0..<nextChan ?b]" using d(1) by simp
    show "Suc k \<le> length (arrivals ?b)" using h(1) by simp
    show "queue ?b = drop (Suc k) (arrivals ?b)" using h(3) by simp
    show "pairings ?b ! n = (arrivals ?b ! (2 * n), arrivals ?b ! (2 * n + 1))"
      if "n < length (pairings ?b)" for n
      using d(4) [of n] that by simp
    show "waitingPlayer ?b = Some p1 \<and> pairings ?b \<noteq> [] \<and> last (pairings ?b) = (p1, p2)"
      if "worker ?b = Creating p1 p2" for p1 p2
      using that w by simp
    show "Suc k = 2 * length (pairings ?b)
         + (if \<not> is_creating (worker ?b) \<and> waitingPlayer ?b \<noteq> None then 1 else 0)"
      using k w by simp
    show "x = arrivals ?b ! (2 * length (pairings ?b))"
      if "\<not> is_creating (worker ?b)" "waitingPlayer ?b = Some x" for x
      using that h(2) k by simp
  qed
qed

lemma receive_second:
  assumes inv: "inv_queue k b" and w: "worker b = Selecting" and q: "queue b = r # rest"
    and wp: "waitingPlayer b = Some p1"
  shows "k = 2 * length (pairings b) + 1" "Suc k \<le> length (arrivals b)"
    "p1 = arrivals b ! (2 * length (pairings b))"
    "r = arrivals b ! (2 * length (pairings b) + 1)"
    "rest = drop (Suc k) (arrivals b)"
    "Response p1 = 2 * length (pairings b)" "Response r = 2 * length (pairings b) + 1"
proof -
  note d = inv_queueD [OF inv]
  from d(3) q have "drop k (arrivals b) = r # rest" by simp
  from queue_head [OF this] have h: "k < length (arrivals b)" "r = arrivals b ! k"
    "rest = drop (Suc k) (arrivals b)" by simp_all
  from d(6) w wp show k: "k = 2 * length (pairings b) + 1" by simp
  from h show "Suc k \<le> length (arrivals b)" by simp
  from d(7) w wp show p1: "p1 = arrivals b ! (2 * length (pairings b))" by simp
  from h k show r: "r = arrivals b ! (2 * length (pairings b) + 1)" by simp
  from h show "rest = drop (Suc k) (arrivals b)" by simp
  from h k have "2 * length (pairings b) < length (arrivals b)" by simp
  from inv_Response [OF inv this] p1 show "Response p1 = 2 * length (pairings b)" by simp
  from h k have "2 * length (pairings b) + 1 < length (arrivals b)" by simp
  from inv_Response [OF inv this] r show "Response r = 2 * length (pairings b) + 1" by simp
qed

lemma pairings_snoc:
  assumes d: "\<And>n. n < length ps \<Longrightarrow> ps ! n = (xs ! (2 * n), xs ! (2 * n + 1))"
    and n: "n < length (ps @ [(xs ! (2 * length ps), xs ! (2 * length ps + 1))])"
  shows "(ps @ [(xs ! (2 * length ps), xs ! (2 * length ps + 1))]) ! n
           = (xs ! (2 * n), xs ! (2 * n + 1))"
proof (cases "n < length ps")
  case True
  with d [OF True] show ?thesis by (simp add: nth_append)
next
  case False
  with n have "n = length ps" by simp
  then show ?thesis by (simp add: nth_append)
qed

lemma receive_second_queue:
  assumes inv: "inv_queue k b" and w: "worker b = Selecting" and q: "queue b = r # rest"
    and wp: "waitingPlayer b = Some p1"
    and b': "queue b' = rest" "pairings b' = pairings b @ [(p1, r)]"
      "arrivals b' = arrivals b" "nextChan b' = nextChan b"
    and w': "worker b' = Creating p1 r \<and> waitingPlayer b' = Some p1
       \<or> worker b' = Selecting \<and> waitingPlayer b' = None"
  shows "inv_queue (Suc k) b'"
proof -
  note d = inv_queueD [OF inv]
  note f = receive_second [OF inv w q wp]
  show ?thesis
  proof (rule inv_queueI)
    show "map Response (arrivals b') = [0..<nextChan b']" using d(1) by (simp add: b')
    show "Suc k \<le> length (arrivals b')" using f(2) by (simp add: b')
    show "queue b' = drop (Suc k) (arrivals b')" using f(5) by (simp add: b')
    show "pairings b' ! n = (arrivals b' ! (2 * n), arrivals b' ! (2 * n + 1))"
      if "n < length (pairings b')" for n
      using pairings_snoc [of "pairings b" "arrivals b" n] d(4) that
      unfolding b' f(3,4) by simp
    show "Suc k = 2 * length (pairings b')
         + (if \<not> is_creating (worker b') \<and> waitingPlayer b' \<noteq> None then 1 else 0)"
      using w' f(1) by (auto simp: b'(2))
    show "waitingPlayer b' = Some q1 \<and> pairings b' \<noteq> [] \<and> last (pairings b') = (q1, q2)"
      if "worker b' = Creating q1 q2" for q1 q2
      using that w' by (auto simp: b'(2))
    show "x = arrivals b' ! (2 * length (pairings b'))"
      if "\<not> is_creating (worker b')" "waitingPlayer b' = Some x" for x
      using that w' by auto
  qed
qed



lemma completed_frame:
  assumes "pairings b' = pairings b" "is_creating (worker b') = is_creating (worker b)"
  shows "completed b' = completed b" "answered b' = answered b"
  by (simp_all add: completed_def answered_def assms)

lemma inv_log_frame:
  assumes "inv_log b" "sessionsLog b' = sessionsLog b" "pairings b' = pairings b"
    "is_creating (worker b') = is_creating (worker b)"
  shows "inv_log b'"
  using assms(1) unfolding inv_log_def completed_frame(1) [OF assms(3,4)] assms(2) .

lemma inv_tokens_frame:
  assumes "inv_tokens b" "gameSemaphore b' = gameSemaphore b" "supervisors b' = supervisors b"
    "maxConcurrentGames b' = maxConcurrentGames b"
    "is_creating (worker b') = is_creating (worker b)"
  shows "inv_tokens b'"
  using assms(1) unfolding inv_tokens_def tokens_held_def assms(2-5) .

lemma inv_chans_frame:
  assumes "inv_chans b" "chans b' = chans b" "pairings b' = pairings b"
    "waitingPlayer b' = waitingPlayer b" "worker b' = worker b"
  shows "inv_chans b'"
  using assms(1) unfolding inv_chans_def answered_def completed_def assms(2-5) .

lemma inv_chans_empty:
  assumes "inv_chans b" "worker b \<noteq> Returned" "answered b \<le> c"
  shows "chans b c = []"
  using assms unfolding inv_chans_def by blast

lemma inv_chans_one:
  assumes "inv_chans b" "c < answered b"
  shows "length (chans b c) = 1"
  using assms unfolding inv_chans_def by blast

text \<open>A state whose worker has not returned and that keeps the answered prefix.\<close>

lemma inv_chans_quiet:
  assumes inv: "inv_chans b" and w: "worker b \<noteq> Returned"
    and eq: "chans b' = chans b" "answered b' = answered b"
  shows "inv_chans b'"
  unfolding inv_chans_def
proof (intro conjI allI impI)
  fix c assume "c < answered b'"
  with inv_chans_one [OF inv, of c] show "length (chans b' c) = 1" by (simp add: eq)
next
  fix c assume "answered b' \<le> c"
  with inv_chans_empty [OF inv w, of c] have "chans b' c = []" by (simp add: eq)
  then show "chans b' c = [] \<or> worker b' = Returned \<and> c = answered b' \<and>
       waitingPlayer b' \<noteq> None \<and> chans b' c = [errorResponse ErrMatchmakingCancelled]"
    by simp
qed

text \<open>Two requests numbered \<open>answered b\<close> and \<open>answered b + 1\<close> are answered.\<close>

lemma inv_chans_pair:
  assumes inv: "inv_chans b" and w: "worker b \<noteq> Returned"
    and a: "answered b' = answered b + 2"
    and w': "worker b' \<noteq> Returned"
    and r: "Response p1 = answered b" "Response p2 = answered b + 1"
    and c: "\<And>c. chans b' c = (if c = Response p2 then chans b c @ [y]
                else if c = Response p1 then chans b c @ [x] else chans b c)"
  shows "inv_chans b'"
  unfolding inv_chans_def
proof (intro conjI allI impI)
  fix c assume lt: "c < answered b'"
  show "length (chans b' c) = 1"
  proof (cases "c < answered b")
    case True
    with inv_chans_one [OF inv True] r show ?thesis
      by (simp add: c)
  next
    case False
    then have "answered b \<le> c" by simp
    from inv_chans_empty [OF inv w this] lt False a r show ?thesis
      by (auto simp: c)
  qed
next
  fix c assume ge: "answered b' \<le> c"
  with a have "answered b \<le> c" "c \<noteq> answered b" "c \<noteq> answered b + 1" by simp_all
  with inv_chans_empty [OF inv w, of c] r have "chans b' c = []"
    by (simp add: c)
  then show "chans b' c = [] \<or> worker b' = Returned \<and> c = answered b' \<and>
       waitingPlayer b' \<noteq> None \<and> chans b' c = [errorResponse ErrMatchmakingCancelled]"
    by simp
qed



lemma invI: "inv_queue k b \<Longrightarrow> inv_log b \<Longrightarrow> inv_chans b \<Longrightarrow> inv_tokens b \<Longrightarrow> inv k b"
  by (simp add: inv_def)

lemma invD:
  assumes "inv k b"
  shows "inv_queue k b" "inv_log b" "inv_chans b" "inv_tokens b"
  using assms by (simp_all add: inv_def)

lemma answered_selecting:
  "\<not> is_creating (worker b) \<Longrightarrow> answered b = 2 * length (pairings b)"
  by (simp add: answered_def completed_def)

lemma receive_closed_inv:
  assumes inv: "inv k b" and w: "worker b = Selecting"
  shows "inv k (b\<lparr>worker := Returned\<rparr>)"
proof (rule invI)
  note d = invD [OF inv]
  show "inv_queue k (b\<lparr>worker := Returned\<rparr>)"
    by (rule inv_queue_frame [OF d(1)]) (simp_all add: w)
  show "inv_log (b\<lparr>worker := Returned\<rparr>)"
    by (rule inv_log_frame [OF d(2)]) (simp_all add: w)
  show "inv_tokens (b\<lparr>worker := Returned\<rparr>)"
    by (rule inv_tokens_frame [OF d(4)]) (simp_all add: w)
  have a: "answered (b\<lparr>worker := Returned\<rparr>) = answered b"
    by (simp add: answered_def completed_def w)
  from w have nr: "worker b \<noteq> Returned" by simp
  show "inv_chans (b\<lparr>worker := Returned\<rparr>)"
    unfolding inv_chans_def
  proof (intro conjI allI impI)
    fix c assume "c < answered (b\<lparr>worker := Returned\<rparr>)"
    with inv_chans_one [OF d(3), of c] a
    show "length (chans (b\<lparr>worker := Returned\<rparr>) c) = 1" by simp
  next
    fix c assume "answered (b\<lparr>worker := Returned\<rparr>) \<le> c"
    with inv_chans_empty [OF d(3) nr, of c] a
    show "chans (b\<lparr>worker := Returned\<rparr>) c = [] \<or>
       worker (b\<lparr>worker := Returned\<rparr>) = Returned \<and>
       c = answered (b\<lparr>worker := Returned\<rparr>) \<and>
       waitingPlayer (b\<lparr>worker := Returned\<rparr>) \<noteq> None \<and>
       chans (b\<lparr>worker := Returned\<rparr>) c = [errorResponse ErrMatchmakingCancelled]"
      by simp
  qed
qed

lemma receive_first_inv:
  assumes inv: "inv k b" and w: "worker b = Selecting" and q: "queue b = r # rest"
    and wp: "waitingPlayer b = None"
  shows "inv (Suc k) (b\<lparr>queue := rest, waitingPlayer := Some r\<rparr>)"
proof (rule invI)
  note d = invD [OF inv]
  let ?b = "b\<lparr>queue := rest, waitingPlayer := Some r\<rparr>"
  show "inv_queue (Suc k) ?b" by (rule receive_first_queue [OF d(1) w q wp])
  show "inv_log ?b" by (rule inv_log_frame [OF d(2)]) simp_all
  show "inv_tokens ?b" by (rule inv_tokens_frame [OF d(4)]) simp_all
  from w have nr: "worker b \<noteq> Returned" by simp
  show "inv_chans ?b"
    by (rule inv_chans_quiet [OF d(3) nr]) (simp_all add: answered_def completed_def)
qed

lemma receive_admit_inv:
  assumes inv: "inv k b" and w: "worker b = Selecting" and q: "queue b = r # rest"
    and wp: "waitingPlayer b = Some p1"
    and sem: "int (gameSemaphore b) < maxConcurrentGames b"
  shows "inv (Suc k) (b\<lparr>queue := rest, pairings := pairings b @ [(p1, r)],
               gameSemaphore := gameSemaphore b + 1, worker := Creating p1 r\<rparr>)"
    (is "inv _ ?b")
proof (rule invI)
  note d = invD [OF inv]
  show "inv_queue (Suc k) ?b"
    by (rule receive_second_queue [OF d(1) w q wp]) (simp_all add: wp)
  have c: "completed ?b = completed b" by (simp add: completed_def w)
  from d(2) show "inv_log ?b" unfolding inv_log_def c by simp
  from d(4) sem show "inv_tokens ?b" by (simp add: inv_tokens_def tokens_held_def w)
  from w have nr: "worker b \<noteq> Returned" by simp
  show "inv_chans ?b"
  proof (rule inv_chans_quiet [OF d(3) nr])
    show "chans ?b = chans b" by simp
    show "answered ?b = answered b" unfolding answered_def c ..
  qed
qed

lemma receive_reject_inv:
  assumes inv: "inv k b" and w: "worker b = Selecting" and q: "queue b = r # rest"
    and wp: "waitingPlayer b = Some p1"
  shows "inv (Suc k)
     ((createGame_reject p1 r (b\<lparr>queue := rest, pairings := pairings b @ [(p1, r)]\<rparr>))
        \<lparr>waitingPlayer := None\<rparr>)"
    (is "inv _ ?b")
proof (rule invI)
  note d = invD [OF inv]
  note f = receive_second [OF d(1) w q wp]
  show "inv_queue (Suc k) ?b"
    by (rule receive_second_queue [OF d(1) w q wp]) (simp_all add: createGame_reject_def w)
  have c: "completed ?b = completed b @ [(p1, r)]"
    by (simp add: completed_def w createGame_reject_def)
  from d(2) show "inv_log ?b"
    unfolding inv_log_def c by (simp add: createGame_reject_def subseq_rev_drop_many)
  from d(4) show "inv_tokens ?b"
    by (simp add: inv_tokens_def tokens_held_def w createGame_reject_def)
  from w have nr: "worker b \<noteq> Returned" by simp
  from w have a: "answered b = 2 * length (pairings b)" by (simp add: answered_selecting)
  show "inv_chans ?b"
  proof (rule inv_chans_pair [OF d(3) nr, where ?p1.0 = p1 and ?p2.0 = r])
    show "answered ?b = answered b + 2" unfolding answered_def c by simp
    show "worker ?b \<noteq> Returned" by (simp add: createGame_reject_def w)
    show "Response p1 = answered b" using f(6) a by simp
    show "Response r = answered b + 1" using f(7) a by simp
    show "chans ?b c = (if c = Response r then chans b c @ [errorResponse ErrServerAtCapacity]
                else if c = Response p1 then chans b c @ [errorResponse ErrServerAtCapacity]
                else chans b c)" for c
      using f(6,7) by (simp add: createGame_reject_def respond_chans)
  qed
qed

lemma receive_inv:
  assumes inv: "inv k b" and w: "worker b = Selecting" and s: "worker_receive b = Some b'"
  shows "\<exists>k'. inv k' b'"
  using s
proof (cases rule: worker_receive_cases)
  case closed
  with receive_closed_inv [OF inv w] show ?thesis by blast
next
  case (first r rest)
  from receive_first_inv [OF inv w first(1,2)] first(3) show ?thesis
    by (auto simp: inv_def)
next
  case (admit r rest p1)
  from receive_admit_inv [OF inv w admit(1,2,3)] admit(4) show ?thesis by blast
next
  case (reject r rest p1)
  from receive_reject_inv [OF inv w reject(1,2)] reject(4) show ?thesis by blast
qed



lemma createGame_build_construct:
  "createGame_build gameID now p1 p2 b =
     (case construct gameID p1 p2 of
        Inl err \<Rightarrow> release (respondWithError p1 p2 err b)
      | Inr g \<Rightarrow>
          Some (respond p2 (gameResponse g) (respond p1 (gameResponse g)
            (b\<lparr>activeGames := (activeGames b)(gameID \<mapsto>
                   \<lparr>SessionGame = g, StartTime = now, Players = [Player p1, Player p2]\<rparr>),
               supervisors := supervisors b
                   @ [\<lparr>SessionGame = g, StartTime = now, Players = [Player p1, Player p2]\<rparr>],
               sessionsLog := sessionsLog b @ [(p1, p2)]\<rparr>))))"
  by (simp add: createGame_build_def construct_def Let_def split: sum.splits)

lemma worker_build_cases:
  assumes "worker_build gameID now b = Some b'"
  obtains
    (failed) p1 p2 err where "worker b = Creating p1 p2" "construct gameID p1 p2 = Inl err"
      "gameSemaphore b \<noteq> 0"
      "b' = (respondWithError p1 p2 err b)
              \<lparr>gameSemaphore := gameSemaphore b - 1, waitingPlayer := None, worker := Selecting\<rparr>"
  | (built) p1 p2 g where "worker b = Creating p1 p2" "construct gameID p1 p2 = Inr g"
      "b' = (respond p2 (gameResponse g) (respond p1 (gameResponse g)
            (b\<lparr>activeGames := (activeGames b)(gameID \<mapsto>
                   \<lparr>SessionGame = g, StartTime = now, Players = [Player p1, Player p2]\<rparr>),
               supervisors := supervisors b
                   @ [\<lparr>SessionGame = g, StartTime = now, Players = [Player p1, Player p2]\<rparr>],
               sessionsLog := sessionsLog b @ [(p1, p2)]\<rparr>)))
              \<lparr>waitingPlayer := None, worker := Selecting\<rparr>"
  using assms
  by (auto simp: worker_build_def createGame_build_construct release_def respondWithError_def
        respond_def split: worker_pc.splits sum.splits if_splits)

lemma creating_ids:
  assumes inv: "inv_queue k b" and w: "worker b = Creating p1 p2"
  shows "Response p1 = answered b" "Response p2 = answered b + 1"
    "answered b + 2 = 2 * length (pairings b)" "pairings b = completed b @ [(p1, p2)]"
proof -
  note d = inv_queueD [OF inv]
  from d(5) [OF w] have ne: "pairings b \<noteq> []" and l: "last (pairings b) = (p1, p2)" by simp_all
  from ne have P: "0 < length (pairings b)" by simp
  from w have a: "answered b = 2 * (length (pairings b) - 1)"
    by (simp add: answered_def completed_def)
  from P a show "answered b + 2 = 2 * length (pairings b)" by arith
  from ne have "last (pairings b) = pairings b ! (length (pairings b) - 1)"
    by (rule last_conv_nth)
  also from P have "\<dots> = (arrivals b ! (2 * (length (pairings b) - 1)),
      arrivals b ! (2 * (length (pairings b) - 1) + 1))"
    by (intro d(4)) simp
  finally have p: "p1 = arrivals b ! answered b" "p2 = arrivals b ! (answered b + 1)"
    using l a by simp_all
  from d(6) w d(2) have "2 * length (pairings b) \<le> length (arrivals b)" by simp
  with P a have "answered b < length (arrivals b)" "answered b + 1 < length (arrivals b)"
    by arith+
  from inv_Response [OF inv this(1)] inv_Response [OF inv this(2)] p
  show "Response p1 = answered b" "Response p2 = answered b + 1" by simp_all
  from ne l w show "pairings b = completed b @ [(p1, p2)]"
    by (simp add: completed_def) (metis append_butlast_last_id)
qed

lemma build_inv:
  assumes inv: "inv k b" and w: "worker b = Creating p1 p2"
    and eq: "arrivals b' = arrivals b" "nextChan b' = nextChan b" "queue b' = queue b"
      "pairings b' = pairings b" "waitingPlayer b' = None" "worker b' = Selecting"
      "maxConcurrentGames b' = maxConcurrentGames b"
    and ch: "\<And>c. chans b' c = (if c = Response p2 then chans b c @ [y]
                else if c = Response p1 then chans b c @ [x] else chans b c)"
    and out: "(sessionsLog b' = sessionsLog b \<and> supervisors b' = supervisors b
                \<and> gameSemaphore b \<noteq> 0 \<and> gameSemaphore b' = gameSemaphore b - 1)
              \<or> (sessionsLog b' = sessionsLog b @ [(p1, p2)]
                \<and> supervisors b' = supervisors b @ [s]
                \<and> gameSemaphore b' = gameSemaphore b)"
  shows "inv k b'"
proof (rule invI)
  note i = invD [OF inv]
  note d = inv_queueD [OF i(1)]
  note f = creating_ids [OF i(1) w]
  show "inv_queue k b'"
  proof (rule inv_queueI)
    show "map Response (arrivals b') = [0..<nextChan b']" using d(1) by (simp add: eq)
    show "k \<le> length (arrivals b')" using d(2) by (simp add: eq)
    show "queue b' = drop k (arrivals b')" using d(3) by (simp add: eq)
    show "pairings b' ! n = (arrivals b' ! (2 * n), arrivals b' ! (2 * n + 1))"
      if "n < length (pairings b')" for n
      using d(4) [of n] that by (simp add: eq)
    show "waitingPlayer b' = Some q1 \<and> pairings b' \<noteq> [] \<and> last (pairings b') = (q1, q2)"
      if "worker b' = Creating q1 q2" for q1 q2
      using that by (simp add: eq)
    show "k = 2 * length (pairings b')
         + (if \<not> is_creating (worker b') \<and> waitingPlayer b' \<noteq> None then 1 else 0)"
      using d(6) w by (simp add: eq)
    show "z = arrivals b' ! (2 * length (pairings b'))"
      if "\<not> is_creating (worker b')" "waitingPlayer b' = Some z" for z
      using that by (simp add: eq)
  qed
  have c: "completed b' = completed b @ [(p1, p2)]"
    using f(4) by (simp add: completed_def eq)
  from i(2) have sl: "subseq (sessionsLog b) (completed b)" by (simp add: inv_log_def)
  from out show "inv_log b'"
  proof
    assume "sessionsLog b' = sessionsLog b \<and> supervisors b' = supervisors b
                \<and> gameSemaphore b \<noteq> 0 \<and> gameSemaphore b' = gameSemaphore b - 1"
    with sl show ?thesis unfolding inv_log_def c by (simp add: subseq_rev_drop_many)
  next
    assume "sessionsLog b' = sessionsLog b @ [(p1, p2)]
                \<and> supervisors b' = supervisors b @ [s]
                \<and> gameSemaphore b' = gameSemaphore b"
    with sl show ?thesis unfolding inv_log_def c by (simp add: list_emb_append_mono)
  qed
  from w have nr: "worker b \<noteq> Returned" by simp
  show "inv_chans b'"
  proof (rule inv_chans_pair [OF i(3) nr, where ?p1.0 = p1 and ?p2.0 = p2])
    show "answered b' = answered b + 2" unfolding answered_def c by simp
    show "worker b' \<noteq> Returned" by (simp add: eq)
    show "Response p1 = answered b" by (rule f(1))
    show "Response p2 = answered b + 1" by (rule f(2))
    show "chans b' c = (if c = Response p2 then chans b c @ [y]
                else if c = Response p1 then chans b c @ [x] else chans b c)" for c
      by (rule ch)
  qed
  from i(4) w have t: "gameSemaphore b = length (supervisors b) + 1"
    "int (gameSemaphore b) \<le> maxConcurrentGames b"
    by (simp_all add: inv_tokens_def tokens_held_def)
  from out t show "inv_tokens b'"
    by (auto simp: inv_tokens_def tokens_held_def eq)
qed

lemma worker_build_inv:
  assumes inv: "inv k b" and s: "worker_build gameID now b = Some b'"
  shows "inv k b'"
  using s
proof (cases rule: worker_build_cases)
  case (failed p1 p2 err)
  note f = creating_ids [OF invD(1) [OF inv] failed(1)]
  show ?thesis
  proof (rule build_inv [OF inv failed(1)])
    show "chans b' c = (if c = Response p2 then chans b c @ [errorResponse err]
                else if c = Response p1 then chans b c @ [errorResponse err] else chans b c)" for c
      using f(1,2) by (simp add: failed(4) respondWithError_def respond_chans)
    show "(sessionsLog b' = sessionsLog b \<and> supervisors b' = supervisors b
                \<and> gameSemaphore b \<noteq> 0 \<and> gameSemaphore b' = gameSemaphore b - 1)
              \<or> (sessionsLog b' = sessionsLog b @ [(p1, p2)]
                \<and> supervisors b' = supervisors b @ [undefined]
                \<and> gameSemaphore b' = gameSemaphore b)"
      using failed(3) by (simp add: failed(4) respondWithError_def)
  qed (simp_all add: failed(4) respondWithError_def)
next
  case (built p1 p2 g)
  note f = creating_ids [OF invD(1) [OF inv] built(1)]
  show ?thesis
  proof (rule build_inv [OF inv built(1)])
    show "chans b' c = (if c = Response p2 then chans b c @ [gameResponse g]
                else if c = Response p1 then chans b c @ [gameResponse g] else chans b c)" for c
      using f(1,2) by (simp add: built(3) respond_chans)
    show "(sessionsLog b' = sessionsLog b \<and> supervisors b' = supervisors b
                \<and> gameSemaphore b \<noteq> 0 \<and> gameSemaphore b' = gameSemaphore b - 1)
              \<or> (sessionsLog b' = sessionsLog b @ [(p1, p2)]
                \<and> supervisors b' = supervisors b
                    @ [\<lparr>SessionGame = g, StartTime = now, Players = [Player p1, Player p2]\<rparr>]
                \<and> gameSemaphore b' = gameSemaphore b)"
      by (simp add: built(3))
  qed (simp_all add: built(3))
qed



lemma ctx_done_inv:
  assumes inv: "inv k b" and w: "worker b = Selecting" and s: "worker_ctx_done b = Some b'"
  shows "inv k b'"
proof (cases "waitingPlayer b")
  case None
  with s have "b' = b\<lparr>worker := Returned\<rparr>"
    by (simp add: worker_ctx_done_def split: if_splits)
  with receive_closed_inv [OF inv w] show ?thesis by simp
next
  case (Some p)
  with s have b': "b' = (respond p (errorResponse ErrMatchmakingCancelled) b)\<lparr>worker := Returned\<rparr>"
    by (simp add: worker_ctx_done_def split: if_splits)
  note i = invD [OF inv]
  note d = inv_queueD [OF i(1)]
  from w have a: "answered b = 2 * length (pairings b)" by (simp add: answered_selecting)
  from d(6) w Some d(2) have "2 * length (pairings b) < length (arrivals b)" by simp
  from inv_Response [OF i(1) this] d(7) [of p] w Some a have r: "Response p = answered b"
    by simp
  from w have nr: "worker b \<noteq> Returned" by simp
  have a': "answered b' = answered b" by (simp add: b' answered_def completed_def w)
  show ?thesis
  proof (rule invI)
    show "inv_queue k b'"
      by (rule inv_queue_frame [OF i(1)]) (simp_all add: b' w)
    show "inv_log b'"
      by (rule inv_log_frame [OF i(2)]) (simp_all add: b' w)
    show "inv_tokens b'"
      by (rule inv_tokens_frame [OF i(4)]) (simp_all add: b' w)
    show "inv_chans b'"
      unfolding inv_chans_def
    proof (intro conjI allI impI)
      fix c assume "c < answered b'"
      with inv_chans_one [OF i(3), of c] a' r
      show "length (chans b' c) = 1" by (simp add: b' respond_chans)
    next
      fix c assume ge: "answered b' \<le> c"
      with a' have "answered b \<le> c" by simp
      note e = inv_chans_empty [OF i(3) nr this]
      show "chans b' c = [] \<or> worker b' = Returned \<and> c = answered b' \<and>
         waitingPlayer b' \<noteq> None \<and> chans b' c = [errorResponse ErrMatchmakingCancelled]"
      proof (cases "c = answered b")
        case True
        with e r a' Some show ?thesis by (simp add: b' respond_chans)
      next
        case False
        with e r show ?thesis by (simp add: b' respond_chans)
      qed
    qed
  qed
qed

lemma session_cleanup_cases:
  assumes "session_cleanup i b = Some b'"
  obtains "i < length (supervisors b)" "gameSemaphore b \<noteq> 0"
    "b' = b\<lparr>activeGames := (activeGames b)(GameID (SessionGame (supervisors b ! i)) := None),
            gameSemaphore := gameSemaphore b - 1,
            supervisors := take i (supervisors b) @ drop (Suc i) (supervisors b)\<rparr>"
  using assms
  by (auto simp: session_cleanup_def release_def Let_def split: if_splits)

lemma session_cleanup_inv:
  assumes inv: "inv k b" and s: "session_cleanup i b = Some b'"
  shows "inv k b'"
  using s
proof (cases rule: session_cleanup_cases)
  case 1
  note i = invD [OF inv]
  show ?thesis
  proof (rule invI)
    show "inv_queue k b'" by (rule inv_queue_frame [OF i(1)]) (simp_all add: 1(3))
    show "inv_log b'" by (rule inv_log_frame [OF i(2)]) (simp_all add: 1(3))
    show "inv_chans b'" by (rule inv_chans_frame [OF i(3)]) (simp_all add: 1(3))
    from 1(1) have "length (take i (supervisors b) @ drop (Suc i) (supervisors b)) + 1
        = length (supervisors b)" by simp
    with i(4) 1(1,2) show "inv_tokens b'"
      by (simp add: inv_tokens_def tokens_held_def 1(3))
  qed
qed

lemma frame_inv:
  assumes inv: "inv k b"
    and eq: "arrivals b' = arrivals b" "nextChan b' = nextChan b" "queue b' = queue b"
      "pairings b' = pairings b" "waitingPlayer b' = waitingPlayer b" "worker b' = worker b"
      "sessionsLog b' = sessionsLog b" "chans b' = chans b"
      "gameSemaphore b' = gameSemaphore b" "supervisors b' = supervisors b"
      "maxConcurrentGames b' = maxConcurrentGames b"
  shows "inv k b'"
proof (rule invI)
  note i = invD [OF inv]
  show "inv_queue k b'" by (rule inv_queue_frame [OF i(1)]) (simp_all add: eq)
  show "inv_log b'" by (rule inv_log_frame [OF i(2)]) (simp_all add: eq)
  show "inv_chans b'" by (rule inv_chans_frame [OF i(3)]) (simp_all add: eq)
  show "inv_tokens b'" by (rule inv_tokens_frame [OF i(4)]) (simp_all add: eq)
qed

lemma send_inv:
  assumes inv: "inv k b" and s: "RequestGame_send p b = Some b'"
  shows "inv k b'"
proof (rule invI)
  note i = invD [OF inv]
  note o = send_other [OF s]
  show "inv_queue k b'" by (rule send_queue [OF i(1) s])
  show "inv_log b'" by (rule inv_log_frame [OF i(2)]) (simp_all add: o)
  show "inv_chans b'" by (rule inv_chans_frame [OF i(3)]) (simp_all add: o)
  show "inv_tokens b'" by (rule inv_tokens_frame [OF i(4)]) (simp_all add: o)
qed

lemma step_inv:
  assumes inv: "inv k b" and s: "step a b = Some b'"
  shows "\<exists>k'. inv k' b'"
proof -
  from s have nc: "\<not> crashed b" by (auto simp: step_def split: if_splits)
  show ?thesis
  proof (cases a)
    case (Send p)
    with s nc have "RequestGame_send p b = Some b'" by (simp add: step_def)
    from send_inv [OF inv this] show ?thesis ..
  next
    case StopCancel
    with s nc have "b' = b\<lparr>ctxDone := True\<rparr>" by (simp add: step_def)
    with frame_inv [OF inv, of b'] show ?thesis by auto
  next
    case StopCloseQueue
    with s nc have "b' = b\<lparr>crashed := True\<rparr> \<or> b' = b\<lparr>queueClosed := True\<rparr>"
      by (auto simp: step_def split: if_splits)
    with frame_inv [OF inv, of b'] show ?thesis by auto
  next
    case WorkerReceive
    with s nc have "worker b = Selecting" "worker_receive b = Some b'"
      by (simp_all add: step_def split: if_splits)
    from receive_inv [OF inv this] show ?thesis .
  next
    case WorkerCtxDone
    with s nc have "worker b = Selecting" "worker_ctx_done b = Some b'"
      by (simp_all add: step_def split: if_splits)
    from ctx_done_inv [OF inv this] show ?thesis ..
  next
    case (WorkerBuild gameID now)
    with s nc have "worker_build gameID now b = Some b'" by (simp add: step_def)
    from worker_build_inv [OF inv this] show ?thesis ..
  next
    case (SessionCleanup i)
    with s nc have "session_cleanup i b = Some b'" by (simp add: step_def)
    from session_cleanup_inv [OF inv this] show ?thesis ..
  next
    case (CleanupStale now)
    with s nc have "b' = cleanupStaleGames now b" by (simp add: step_def)
    with frame_inv [OF inv, of b'] show ?thesis by (auto simp: cleanupStaleGames_def)
  qed
qed

lemma exec_inv:
  assumes "inv k b" "exec as b = Some b'"
  shows "\<exists>k'. inv k' b'"
  using assms
proof (induction as arbitrary: k b)
  case Nil
  then show ?case by auto
next
  case (Cons a as)
  from Cons.prems(2) obtain b1 where s: "step a b = Some b1" and e: "exec as b1 = Some b'"
    by (auto split: option.splits)
  from step_inv [OF Cons.prems(1) s] obtain k1 where "inv k1 b1" ..
  from Cons.IH [OF this e] show ?case .
qed

lemma exec_max:
  "exec as b = Some b' \<Longrightarrow> maxConcurrentGames b' = maxConcurrentGames b"
proof (induction as arbitrary: b)
  case Nil
  then show ?case by simp
next
  case (Cons a as)
  from Cons.prems obtain b1 where s: "step a b = Some b1" and e: "exec as b1 = Some b'"
    by (auto split: option.splits)
  from Cons.IH [OF e] step_max [OF s] show ?case by simp
qed

lemma init_inv:
  assumes "NewGameBroker n = Some b"
  shows "inv 0 b"
proof -
  from assms have b: "b = \<lparr>maxConcurrentGames = n, queue = [], queueClosed = False, ctxDone = False,
                 activeGames = Map.empty, gameSemaphore = 0, chans = (\<lambda>_. []), nextChan = 0,
                 waitingPlayer = None, worker = Selecting, supervisors = [], crashed = False,
                 arrivals = [], pairings = [], sessionsLog = []\<rparr>" and n: "0 \<le> n"
    by (auto simp: NewGameBroker_def split: if_splits)
  show ?thesis
  proof (rule invI)
    show "inv_queue 0 b" by (simp add: inv_queue_def b)
    show "inv_log b" by (simp add: inv_log_def completed_def b)
    show "inv_chans b" by (simp add: inv_chans_def answered_def completed_def b)
    show "inv_tokens b" using n by (simp add: inv_tokens_def tokens_held_def b)
  qed
qed

lemma run_inv:
  assumes "run n as = Some b"
  shows "\<exists>k. inv k b" "maxConcurrentGames b = n"
proof -
  from assms obtain b0 where b0: "NewGameBroker n = Some b0" and e: "exec as b0 = Some b"
    by (auto simp: run_def split: option.splits)
  from exec_inv [OF init_inv [OF b0] e] show "\<exists>k. inv k b" .
  from b0 have "maxConcurrentGames b0 = n" by (auto simp: NewGameBroker_def split: if_splits)
  with exec_max [OF e] show "maxConcurrentGames b = n" by simp
qed

text \<open>The equations that evaluate a concrete execution.\<close>

lemmas step_defs = step_def RequestGame_send_def worker_receive_def worker_build_def
  worker_ctx_done_def session_cleanup_def cleanupStaleGames_def createGame_build_def
  createGame_reject_def respondWithError_def respond_def try_acquire_def release_def
  NewGame_def AddPlayer_def StartGame_def errorResponse_def gameResponse_def queueCap_def

section \<open>The admission budget\<close>

lemma session_cleanup_progress:
  assumes t: "inv_tokens b" and i: "i < length (supervisors b)" and nc: "\<not> crashed b"
  shows "\<exists>b'. step (SessionCleanup i) b = Some b'
           \<and> gameSemaphore b' + 1 = gameSemaphore b
           \<and> length (supervisors b') + 1 = length (supervisors b)"
proof -
  from t i have g: "gameSemaphore b \<noteq> 0" by (auto simp: inv_tokens_def tokens_held_def)
  let ?b = "b\<lparr>activeGames := (activeGames b)(GameID (SessionGame (supervisors b ! i)) := None),
            gameSemaphore := gameSemaphore b - 1,
            supervisors := take i (supervisors b) @ drop (Suc i) (supervisors b)\<rparr>"
  from g i nc have "step (SessionCleanup i) b = Some ?b"
    by (simp add: step_def session_cleanup_def release_def Let_def)
  moreover from g have "gameSemaphore ?b + 1 = gameSemaphore b" by simp
  moreover from i have "length (supervisors ?b) + 1 = length (supervisors b)" by simp
  ultimately show ?thesis by blast
qed

lemma worker_build_progress:
  assumes t: "inv_tokens b" and w: "worker b = Creating p1 p2" and nc: "\<not> crashed b"
  shows "\<exists>b'. step (WorkerBuild gameID now) b = Some b'"
proof -
  from t w have g: "gameSemaphore b \<noteq> 0" by (simp add: inv_tokens_def tokens_held_def)
  then show ?thesis using w nc
    by (simp add: step_def worker_build_def createGame_build_construct release_def
          respondWithError_def split: sum.splits)
qed

lemma C1_acts_run:
  "\<exists>b. run 1 C1_acts = Some b \<and> gameSemaphore b = 1 \<and> length (supervisors b) = 1
      \<and> worker b = Selecting \<and> \<not> crashed b"
  by (simp add: run_def NewGameBroker_def C1_acts_def step_defs Let_def alice_def bob_def)

text \<open>
  C1. In every state an execution of the broker reaches from \<open>NewGameBroker n\<close>, by any
  interleaving of queue sends, worker iterations, session cleanups, sweeps and the steps
  of \<open>Stop\<close>, the number of tokens in the semaphore is between 0 and \<open>n\<close> and equals the
  number of running session supervisors plus one while \<open>createGame\<close> is between its
  semaphore send and its return. The token is sent before the game is constructed
  (\<open>worker_receive\<close> precedes \<open>worker_build\<close>); the receive that returns it never
  blocks: a supervisor's cleanup takes exactly one token and ends that supervisor, and
  \<open>createGame\<close> always returns.
\<close>

theorem C1_admission_tokens_bounded:
  assumes "run n as = Some b"
  shows "0 \<le> int (gameSemaphore b) \<and> int (gameSemaphore b) \<le> n
       \<and> maxConcurrentGames b = n
       \<and> gameSemaphore b = tokens_held b
       \<and> (\<forall>i. i < length (supervisors b) \<and> \<not> crashed b \<longrightarrow>
            (\<exists>b'. step (SessionCleanup i) b = Some b'
               \<and> gameSemaphore b' + 1 = gameSemaphore b
               \<and> length (supervisors b') + 1 = length (supervisors b)))
       \<and> (\<forall>gameID now. is_creating (worker b) \<and> \<not> crashed b \<longrightarrow>
            (\<exists>b'. step (WorkerBuild gameID now) b = Some b'))"
proof -
  from run_inv [OF assms] obtain k where i: "inv k b" and m: "maxConcurrentGames b = n"
    by blast
  note t = invD(4) [OF i]
  from t m have "int (gameSemaphore b) \<le> n" "gameSemaphore b = tokens_held b"
    by (simp_all add: inv_tokens_def)
  moreover have "\<exists>b'. step (SessionCleanup i) b = Some b'
               \<and> gameSemaphore b' + 1 = gameSemaphore b
               \<and> length (supervisors b') + 1 = length (supervisors b)"
    if "i < length (supervisors b) \<and> \<not> crashed b" for i
    using session_cleanup_progress [OF t, of i] that by blast
  moreover have "\<exists>b'. step (WorkerBuild gameID now) b = Some b'"
    if "is_creating (worker b) \<and> \<not> crashed b" for gameID now
  proof -
    from that obtain p1 p2 where "worker b = Creating p1 p2"
      by (cases "worker b") simp_all
    from worker_build_progress [OF t this] that show ?thesis by blast
  qed
  ultimately show ?thesis using m by simp
qed

theorem C1_admission_tokens_bounded_witness:
  "\<exists>b. run 1 C1_acts = Some b \<and> gameSemaphore b = 1 \<and> int (gameSemaphore b) \<le> 1
       \<and> tokens_held b = 1
       \<and> (\<exists>b'. step (SessionCleanup 0) b = Some b' \<and> gameSemaphore b' = 0)"
proof -
  from C1_acts_run obtain b where r: "run 1 C1_acts = Some b" and g: "gameSemaphore b = 1"
    and s: "length (supervisors b) = 1" and nc: "\<not> crashed b" by blast
  from C1_admission_tokens_bounded [OF r] g s nc
  have "int (gameSemaphore b) \<le> 1" "tokens_held b = 1"
    "\<exists>b'. step (SessionCleanup 0) b = Some b' \<and> gameSemaphore b' + 1 = gameSemaphore b"
    by auto
  with r g show ?thesis by auto
qed

text \<open>
  In every state an execution reaches, \<open>GetAvailableSlots\<close> is the number of tokens
  held, not the number still free.
\<close>

lemma GetAvailableSlots_counts_held:
  assumes "run n as = Some b"
  shows "GetAvailableSlots b = int (tokens_held b)"
    and "available_slots_spec b = n - int (tokens_held b)"
proof -
  from run_inv [OF assms] obtain k where i: "inv k b" and m: "maxConcurrentGames b = n"
    by blast
  from invD(4) [OF i] show "GetAvailableSlots b = int (tokens_held b)"
    by (simp add: inv_tokens_def GetAvailableSlots_def)
  from m show "available_slots_spec b = n - int (tokens_held b)"
    by (simp add: available_slots_spec_def)
qed

section \<open>Rejected pairings\<close>

text \<open>
  C6. In any state an execution reaches with one request waiting, a second at the head
  of the queue and no free slot (the semaphore send not ready), the worker's next
  iteration sends one response, and nothing else, on both reply channels: no game, and
  the error "server at capacity", which is what each caller of \<open>RequestGame\<close> then
  receives and returns. It creates no game, session or supervisor, takes no token, and
  leaves the worker at its \<open>select\<close> with no waiting request and the rest of the queue.
\<close>

theorem C6_capacity_rejects_both:
  assumes r: "run n as = Some b" and nc: "\<not> crashed b" and w: "worker b = Selecting"
    and wp: "waitingPlayer b = Some p1" and q: "queue b = p2 # rest"
    and full: "\<not> int (gameSemaphore b) < maxConcurrentGames b"
  shows "\<exists>b'. step WorkerReceive b = Some b'
      \<and> chans b' (Response p1) = [\<lparr>Game = None, Error = Some ErrServerAtCapacity\<rparr>]
      \<and> chans b' (Response p2) = [\<lparr>Game = None, Error = Some ErrServerAtCapacity\<rparr>]
      \<and> RequestGame_wait (Response p1) b' elapsed ResponseReceived
            = Some (None, Some ErrServerAtCapacity)
      \<and> RequestGame_wait (Response p2) b' elapsed ResponseReceived
            = Some (None, Some ErrServerAtCapacity)
      \<and> activeGames b' = activeGames b \<and> supervisors b' = supervisors b
      \<and> sessionsLog b' = sessionsLog b \<and> gameSemaphore b' = gameSemaphore b
      \<and> waitingPlayer b' = None \<and> worker b' = Selecting \<and> queue b' = rest
      \<and> \<not> crashed b'
      \<and> createGame gameID now p1 p2 b = Some (createGame_reject p1 p2 b)"
proof -
  from run_inv(1) [OF r] obtain k where i: "inv k b" ..
  note f = receive_second [OF invD(1) [OF i] w q wp]
  from w have a: "answered b = 2 * length (pairings b)" by (simp add: answered_selecting)
  from w have nr: "worker b \<noteq> Returned" by simp
  from inv_chans_empty [OF invD(3) [OF i] nr, of "Response p1"] f(6) a
  have e1: "chans b (Response p1) = []" by simp
  from inv_chans_empty [OF invD(3) [OF i] nr, of "Response p2"] f(7) a
  have e2: "chans b (Response p2) = []" by simp
  let ?b = "(createGame_reject p1 p2 (b\<lparr>queue := rest, pairings := pairings b @ [(p1, p2)]\<rparr>))
              \<lparr>waitingPlayer := None\<rparr>"
  from nc w wp q full have s: "step WorkerReceive b = Some ?b"
    by (simp add: step_def worker_receive_def try_acquire_def Let_def)
  have c1: "chans ?b (Response p1) = [\<lparr>Game = None, Error = Some ErrServerAtCapacity\<rparr>]"
    using e1 f(6,7) by (simp add: createGame_reject_def respond_chans errorResponse_def)
  have c2: "chans ?b (Response p2) = [\<lparr>Game = None, Error = Some ErrServerAtCapacity\<rparr>]"
    using e2 f(6,7) by (simp add: createGame_reject_def respond_chans errorResponse_def)
  from c1 have w1: "RequestGame_wait (Response p1) ?b elapsed ResponseReceived
      = Some (None, Some ErrServerAtCapacity)"
    by (simp add: RequestGame_wait_def)
  from c2 have w2: "RequestGame_wait (Response p2) ?b elapsed ResponseReceived
      = Some (None, Some ErrServerAtCapacity)"
    by (simp add: RequestGame_wait_def)
  have o: "activeGames ?b = activeGames b" "supervisors ?b = supervisors b"
    "sessionsLog ?b = sessionsLog b" "gameSemaphore ?b = gameSemaphore b"
    "waitingPlayer ?b = None" "worker ?b = Selecting" "queue ?b = rest" "\<not> crashed ?b"
    using w nc by (simp_all add: createGame_reject_def)
  from full have g: "createGame gameID now p1 p2 b = Some (createGame_reject p1 p2 b)"
    by (simp add: createGame_def try_acquire_def)
  from s c1 c2 w1 w2 o g show ?thesis by blast
qed

lemma C6_acts_run:
  "\<exists>b. run 1 C6_acts = Some b \<and> \<not> crashed b \<and> worker b = Selecting
      \<and> waitingPlayer b = Some \<lparr>Player = Some carol, Response = 2\<rparr>
      \<and> queue b = [\<lparr>Player = Some dave, Response = 3\<rparr>]
      \<and> gameSemaphore b = 1 \<and> maxConcurrentGames b = 1
      \<and> map Players (supervisors b) = [[Some alice, Some bob]]"
  by (simp add: run_def NewGameBroker_def C6_acts_def step_defs Let_def)

theorem C6_capacity_rejects_both_witness:
  "\<exists>b b'. run 1 C6_acts = Some b \<and> step WorkerReceive b = Some b'
      \<and> chans b' 2 = [\<lparr>Game = None, Error = Some ErrServerAtCapacity\<rparr>]
      \<and> chans b' 3 = [\<lparr>Game = None, Error = Some ErrServerAtCapacity\<rparr>]
      \<and> RequestGame_wait 2 b' 0 ResponseReceived = Some (None, Some ErrServerAtCapacity)
      \<and> RequestGame_wait 3 b' 0 ResponseReceived = Some (None, Some ErrServerAtCapacity)
      \<and> map Players (supervisors b') = [[Some alice, Some bob]]
      \<and> gameSemaphore b' = 1 \<and> waitingPlayer b' = None \<and> worker b' = Selecting"
proof -
  from C6_acts_run obtain b where r: "run 1 C6_acts = Some b" and nc: "\<not> crashed b"
    and w: "worker b = Selecting"
    and wp: "waitingPlayer b = Some \<lparr>Player = Some carol, Response = 2\<rparr>"
    and q: "queue b = [\<lparr>Player = Some dave, Response = 3\<rparr>]"
    and g: "gameSemaphore b = 1" "maxConcurrentGames b = 1"
    and s: "map Players (supervisors b) = [[Some alice, Some bob]]"
    by (elim exE conjE) (rule that)
  from g have full: "\<not> int (gameSemaphore b) < maxConcurrentGames b" by simp
  from C6_capacity_rejects_both [OF r nc w wp q full, of 0 0 0]
  obtain b' where t: "step WorkerReceive b = Some b'"
    "chans b' (Response \<lparr>Player = Some carol, Response = 2\<rparr>)
       = [\<lparr>Game = None, Error = Some ErrServerAtCapacity\<rparr>]"
    "chans b' (Response \<lparr>Player = Some dave, Response = 3\<rparr>)
       = [\<lparr>Game = None, Error = Some ErrServerAtCapacity\<rparr>]"
    "RequestGame_wait (Response \<lparr>Player = Some carol, Response = 2\<rparr>) b' 0 ResponseReceived
       = Some (None, Some ErrServerAtCapacity)"
    "RequestGame_wait (Response \<lparr>Player = Some dave, Response = 3\<rparr>) b' 0 ResponseReceived
       = Some (None, Some ErrServerAtCapacity)"
    "supervisors b' = supervisors b" "gameSemaphore b' = gameSemaphore b"
    "waitingPlayer b' = None" "worker b' = Selecting"
    by (elim exE conjE) (rule that)
  from t(2-5) have c: "chans b' 2 = [\<lparr>Game = None, Error = Some ErrServerAtCapacity\<rparr>]"
    "chans b' 3 = [\<lparr>Game = None, Error = Some ErrServerAtCapacity\<rparr>]"
    "RequestGame_wait 2 b' 0 ResponseReceived = Some (None, Some ErrServerAtCapacity)"
    "RequestGame_wait 3 b' 0 ResponseReceived = Some (None, Some ErrServerAtCapacity)"
    by simp_all
  from t(6) s have s': "map Players (supervisors b') = [[Some alice, Some bob]]" by simp
  from t(7) g(1) have g': "gameSemaphore b' = 1" by simp
  show ?thesis
    by (intro exI conjI) (rule r t(1) c s' g' t(8,9))+
qed

text \<open>
  C7. In any state an execution reaches with \<open>createGame\<close> holding its slot, if a
  construction step (adding the first player, adding the second, starting the game) fails
  with \<open>err\<close>, the call sends one response, and nothing else, on both reply
  channels: no game, and the error \<open>err\<close>, which is what each caller of
  \<open>RequestGame\<close> then receives and returns. It gives its token back (the semaphore again counts the running supervisors
  only), registers no session, starts no supervisor, and returns the worker to its
  \<open>select\<close> with no waiting request. The error is that of the first step that fails.
\<close>

theorem C7_construction_failure_releases:
  assumes r: "run n as = Some b" and nc: "\<not> crashed b" and w: "worker b = Creating p1 p2"
    and c: "construct gameID p1 p2 = Inl err"
  shows "\<exists>b'. step (WorkerBuild gameID now) b = Some b'
      \<and> chans b' (Response p1) = [\<lparr>Game = None, Error = Some err\<rparr>]
      \<and> chans b' (Response p2) = [\<lparr>Game = None, Error = Some err\<rparr>]
      \<and> RequestGame_wait (Response p1) b' elapsed ResponseReceived = Some (None, Some err)
      \<and> RequestGame_wait (Response p2) b' elapsed ResponseReceived = Some (None, Some err)
      \<and> (AddPlayer (NewGame gameID) (Player p1) = Inl err
          \<or> (\<exists>g1. AddPlayer (NewGame gameID) (Player p1) = Inr g1
                \<and> (AddPlayer g1 (Player p2) = Inl err
                   \<or> (\<exists>g2. AddPlayer g1 (Player p2) = Inr g2 \<and> StartGame g2 = Inl err))))
      \<and> gameSemaphore b' + 1 = gameSemaphore b
      \<and> gameSemaphore b' = length (supervisors b')
      \<and> activeGames b' = activeGames b \<and> supervisors b' = supervisors b
      \<and> sessionsLog b' = sessionsLog b
      \<and> waitingPlayer b' = None \<and> worker b' = Selecting \<and> \<not> crashed b'"
proof -
  from run_inv(1) [OF r] obtain k where i: "inv k b" ..
  note f = creating_ids [OF invD(1) [OF i] w]
  from w have nr: "worker b \<noteq> Returned" by simp
  from inv_chans_empty [OF invD(3) [OF i] nr, of "Response p1"] f(1)
  have e1: "chans b (Response p1) = []" by simp
  from inv_chans_empty [OF invD(3) [OF i] nr, of "Response p2"] f(2)
  have e2: "chans b (Response p2) = []" by simp
  from invD(4) [OF i] w have t: "gameSemaphore b = length (supervisors b) + 1"
    by (simp add: inv_tokens_def tokens_held_def)
  let ?b = "(respondWithError p1 p2 err b)
              \<lparr>gameSemaphore := gameSemaphore b - 1, waitingPlayer := None, worker := Selecting\<rparr>"
  from nc w c t have s: "step (WorkerBuild gameID now) b = Some ?b"
    by (simp add: step_def worker_build_def createGame_build_construct release_def
          respondWithError_def)
  have c1: "chans ?b (Response p1) = [\<lparr>Game = None, Error = Some err\<rparr>]"
    using e1 f(1,2) by (simp add: respondWithError_def respond_chans errorResponse_def)
  have c2: "chans ?b (Response p2) = [\<lparr>Game = None, Error = Some err\<rparr>]"
    using e2 f(1,2) by (simp add: respondWithError_def respond_chans errorResponse_def)
  from c1 have w1: "RequestGame_wait (Response p1) ?b elapsed ResponseReceived
      = Some (None, Some err)"
    by (simp add: RequestGame_wait_def)
  from c2 have w2: "RequestGame_wait (Response p2) ?b elapsed ResponseReceived
      = Some (None, Some err)"
    by (simp add: RequestGame_wait_def)
  from c have st: "AddPlayer (NewGame gameID) (Player p1) = Inl err
          \<or> (\<exists>g1. AddPlayer (NewGame gameID) (Player p1) = Inr g1
                \<and> (AddPlayer g1 (Player p2) = Inl err
                   \<or> (\<exists>g2. AddPlayer g1 (Player p2) = Inr g2 \<and> StartGame g2 = Inl err)))"
    by (auto simp: construct_def split: sum.splits)
  have o: "gameSemaphore ?b + 1 = gameSemaphore b" "gameSemaphore ?b = length (supervisors ?b)"
    "activeGames ?b = activeGames b" "supervisors ?b = supervisors b"
    "sessionsLog ?b = sessionsLog b"
    "waitingPlayer ?b = None" "worker ?b = Selecting" "\<not> crashed ?b"
    using t nc by (simp_all add: respondWithError_def)
  from s c1 c2 w1 w2 st o show ?thesis by blast
qed

lemma C7_acts_run:
  "\<exists>b. run 1 C7_acts = Some b \<and> \<not> crashed b
      \<and> worker b = Creating \<lparr>Player = Some alice, Response = 0\<rparr> nobody_req
      \<and> gameSemaphore b = 1"
  by (simp add: run_def NewGameBroker_def C7_acts_def step_defs Let_def alice_def
        nobody_req_def)

lemma C7_construct_fails:
  "construct 100 \<lparr>Player = Some alice, Response = 0\<rparr> nobody_req = Inl ErrNeedTwoPlayers"
  by (simp add: construct_def NewGame_def AddPlayer_def StartGame_def nobody_req_def alice_def)

theorem C7_construction_failure_releases_witness:
  "\<exists>b b'. run 1 C7_acts = Some b \<and> step (WorkerBuild 100 101) b = Some b'
      \<and> chans b' 0 = [\<lparr>Game = None, Error = Some ErrNeedTwoPlayers\<rparr>]
      \<and> chans b' 1 = [\<lparr>Game = None, Error = Some ErrNeedTwoPlayers\<rparr>]
      \<and> RequestGame_wait 0 b' 0 ResponseReceived = Some (None, Some ErrNeedTwoPlayers)
      \<and> RequestGame_wait 1 b' 0 ResponseReceived = Some (None, Some ErrNeedTwoPlayers)
      \<and> gameSemaphore b' = 0 \<and> supervisors b' = [] \<and> worker b' = Selecting"
proof -
  from C7_acts_run obtain b where r: "run 1 C7_acts = Some b" and nc: "\<not> crashed b"
    and w: "worker b = Creating \<lparr>Player = Some alice, Response = 0\<rparr> nobody_req"
    and g: "gameSemaphore b = 1" by blast
  from C7_construction_failure_releases [OF r nc w C7_construct_fails, of 101 0] g r
  show ?thesis by (auto simp: nobody_req_def)
qed



section \<open>Replies to join requests\<close>

lemma chans_at_most_one:
  assumes "inv_chans b"
  shows "length (chans b c) \<le> 1"
proof (cases "c < answered b")
  case True
  from inv_chans_one [OF assms True] show ?thesis by simp
next
  case False
  then have "answered b \<le> c" by simp
  with assms have "chans b c = [] \<or> chans b c = [errorResponse ErrMatchmakingCancelled]"
    unfolding inv_chans_def by blast
  then show ?thesis by auto
qed

lemma completed_prefix:
  "n < length (completed b) \<Longrightarrow> completed b ! n = pairings b ! n \<and> n < length (pairings b)"
  by (simp add: completed_def nth_butlast split: if_splits)

lemma completed_answered:
  assumes inv: "inv_queue k b" and m: "(p1, p2) \<in> set (completed b)"
  shows "Response p1 < answered b" "Response p2 < answered b"
proof -
  note d = inv_queueD [OF inv]
  from m obtain n where n: "n < length (completed b)" and e: "completed b ! n = (p1, p2)"
    by (auto simp: in_set_conv_nth)
  from completed_prefix [OF n] have p: "pairings b ! n = completed b ! n"
    and nl: "n < length (pairings b)" by simp_all
  from d(4) [OF nl] p e have pe: "p1 = arrivals b ! (2 * n)" "p2 = arrivals b ! (2 * n + 1)"
    by simp_all
  from pairs_bound [OF inv] d(2) nl have "2 * n < length (arrivals b)"
    "2 * n + 1 < length (arrivals b)" by simp_all
  from inv_Response [OF inv this(1)] inv_Response [OF inv this(2)] pe
  have "Response p1 = 2 * n" "Response p2 = 2 * n + 1" by simp_all
  with n show "Response p1 < answered b" "Response p2 < answered b"
    by (simp_all add: answered_def)
qed

lemma queued_unanswered:
  assumes inv: "inv k b" and m: "r \<in> set (queue b)"
  shows "chans b (Response r) = []"
proof -
  note i = invD [OF inv]
  note d = inv_queueD [OF i(1)]
  from m d(3) obtain j where j: "j < length (drop k (arrivals b))" and e: "drop k (arrivals b) ! j = r"
    by (auto simp: in_set_conv_nth)
  from j have jl: "k + j < length (arrivals b)" by simp
  from e d(2) have "r = arrivals b ! (k + j)" by simp
  with inv_Response [OF i(1) jl] have r: "Response r = k + j" by simp
  have ak: "answered b \<le> 2 * length (pairings b)"
    by (simp add: answered_def completed_def)
  with pairs_bound [OF i(1)] r have ge: "answered b \<le> Response r" by simp
  with i(3) have "chans b (Response r) = []
      \<or> (worker b = Returned \<and> Response r = answered b \<and> waitingPlayer b \<noteq> None)"
    unfolding inv_chans_def by blast
  then show ?thesis
  proof
    assume "worker b = Returned \<and> Response r = answered b \<and> waitingPlayer b \<noteq> None"
    then have w: "worker b = Returned" and ra: "Response r = answered b"
      and wp: "waitingPlayer b \<noteq> None" by simp_all
    from w have "answered b = 2 * length (pairings b)" by (simp add: answered_selecting)
    moreover from d(6) w wp have "k = 2 * length (pairings b) + 1" by simp
    ultimately show ?thesis using r ra by simp
  qed
qed

lemma cancelled_waiting:
  assumes inv: "inv k b" and nc: "\<not> crashed b" and w: "worker b = Selecting"
    and cd: "ctxDone b" and wp: "waitingPlayer b = Some p"
  shows "\<exists>b'. step WorkerCtxDone b = Some b'
            \<and> chans b' (Response p) = [errorResponse ErrMatchmakingCancelled]
            \<and> worker b' = Returned"
proof -
  note i = invD [OF inv]
  note d = inv_queueD [OF i(1)]
  from w have a: "answered b = 2 * length (pairings b)" by (simp add: answered_selecting)
  from d(6) w wp d(2) have "2 * length (pairings b) < length (arrivals b)" by simp
  from inv_Response [OF i(1) this] d(7) [of p] w wp a have r: "Response p = answered b"
    by simp
  from w have nr: "worker b \<noteq> Returned" by simp
  from inv_chans_empty [OF i(3) nr, of "Response p"] r have e: "chans b (Response p) = []"
    by simp
  let ?b = "(respond p (errorResponse ErrMatchmakingCancelled) b)\<lparr>worker := Returned\<rparr>"
  from nc w cd wp have "step WorkerCtxDone b = Some ?b"
    by (simp add: step_def worker_ctx_done_def)
  moreover from e have "chans ?b (Response p) = [errorResponse ErrMatchmakingCancelled]"
    by (simp add: respond_chans)
  moreover have "worker ?b = Returned" by simp
  ultimately show ?thesis by blast
qed

text \<open>Once the worker has returned, nothing is sent on any reply channel.\<close>

lemma returned_step:
  assumes "worker b = Returned" "step a b = Some b'"
  shows "worker b' = Returned \<and> chans b' = chans b"
  using assms
  by (cases a)
     (auto simp: step_def RequestGame_send_def worker_build_def session_cleanup_def
        release_def cleanupStaleGames_def Let_def split: if_splits)

lemma returned_exec:
  assumes "worker b = Returned" "exec as b = Some b'"
  shows "chans b' = chans b"
  using assms
proof (induction as arbitrary: b)
  case Nil
  then show ?case by simp
next
  case (Cons a as)
  from Cons.prems(2) obtain b1 where s: "step a b = Some b1" and e: "exec as b1 = Some b'"
    by (auto split: option.splits)
  from returned_step [OF Cons.prems(1) s] Cons.IH [OF _ e] show ?case by simp
qed

text \<open>
  The caller of a request that is never answered still returns: once the broker's context
  is cancelled, the \<open>Done\<close> branch of its second \<open>select\<close> is ready.
\<close>

lemma caller_returns_on_shutdown:
  "ctxDone b \<Longrightarrow> RequestGame_wait c b elapsed WaitCtxDone = Some (None, Some ErrShuttingDown)"
  by (simp add: RequestGame_wait_def)

text \<open>
  C2. The claim says that every enqueued request, also one still queued or waiting at
  shutdown, gets exactly one response on its reply channel. The code never sends two,
  but it may send none: a request that is still in the queue when the worker leaves its
  loop is never answered on its channel (its caller returns through the \<open>Done\<close> branch
  of \<open>RequestGame\<close>). Here one request is queued, \<open>Stop\<close> cancels the context and the
  worker takes its \<open>Done\<close> branch: the worker has returned, the request is still in the
  queue, and its channel is empty.
\<close>

theorem C2_queued_request_gets_no_reply:
  "map_option worker (run 1 C2_acts) = Some Returned
   \<and> map_option queue (run 1 C2_acts) = Some [\<lparr>Player = Some alice, Response = 0\<rparr>]
   \<and> map_option arrivals (run 1 C2_acts) = Some [\<lparr>Player = Some alice, Response = 0\<rparr>]
   \<and> map_option (replies 0) (run 1 C2_acts) = Some []"
  by (simp add: run_def NewGameBroker_def C2_acts_def step_defs Let_def replies_def)

text \<open>
  C2, amended. In every state an execution reaches: no reply channel has ever carried
  more than one response; both requests of every call of \<open>createGame\<close> that has returned
  have exactly one; a request still in the queue has none; and when the worker takes its
  \<open>Done\<close> branch with a request waiting, that request gets exactly one response: no
  game, and the error "matchmaking cancelled".
\<close>

theorem C2_at_most_one_reply:
  assumes r: "run n as = Some b"
  shows "(\<forall>c. length (chans b c) \<le> 1)
     \<and> (\<forall>p1 p2. (p1, p2) \<in> set (completed b) \<longrightarrow>
           length (chans b (Response p1)) = 1 \<and> length (chans b (Response p2)) = 1)
     \<and> (\<forall>q \<in> set (queue b). chans b (Response q) = [])
     \<and> (\<forall>p. \<not> crashed b \<and> worker b = Selecting \<and> ctxDone b \<and> waitingPlayer b = Some p \<longrightarrow>
           (\<exists>b'. step WorkerCtxDone b = Some b'
              \<and> chans b' (Response p) = [\<lparr>Game = None, Error = Some ErrMatchmakingCancelled\<rparr>]
              \<and> worker b' = Returned))"
proof -
  from run_inv(1) [OF r] obtain k where i: "inv k b" ..
  note j = invD [OF i]
  have 1: "length (chans b c) \<le> 1" for c by (rule chans_at_most_one [OF j(3)])
  have 2: "length (chans b (Response p1)) = 1 \<and> length (chans b (Response p2)) = 1"
    if "(p1, p2) \<in> set (completed b)" for p1 p2
    using completed_answered [OF j(1) that] inv_chans_one [OF j(3)] by simp
  have 3: "chans b (Response q) = []" if "q \<in> set (queue b)" for q
    by (rule queued_unanswered [OF i that])
  have 4: "\<exists>b'. step WorkerCtxDone b = Some b'
              \<and> chans b' (Response p) = [\<lparr>Game = None, Error = Some ErrMatchmakingCancelled\<rparr>]
              \<and> worker b' = Returned"
    if "\<not> crashed b \<and> worker b = Selecting \<and> ctxDone b \<and> waitingPlayer b = Some p" for p
    using cancelled_waiting [OF i, of p] that unfolding errorResponse_def by blast
  from 1 2 3 4 show ?thesis by blast
qed

lemma C2_witness_run:
  "\<exists>b. run 0 C2_witness_acts = Some b
      \<and> completed b = [(\<lparr>Player = Some alice, Response = 0\<rparr>, \<lparr>Player = Some bob, Response = 1\<rparr>)]
      \<and> queue b = [\<lparr>Player = Some bob, Response = 3\<rparr>]
      \<and> \<not> crashed b \<and> worker b = Selecting \<and> ctxDone b
      \<and> waitingPlayer b = Some \<lparr>Player = Some alice, Response = 2\<rparr>"
  by (simp add: run_def NewGameBroker_def C2_witness_acts_def step_defs Let_def alice_def
        bob_def completed_def)

theorem C2_at_most_one_reply_witness:
  "\<exists>b. run 0 C2_witness_acts = Some b
      \<and> length (chans b 0) = 1 \<and> length (chans b 1) = 1 \<and> chans b 3 = []
      \<and> length (chans b 2) \<le> 1
      \<and> (\<exists>b'. step WorkerCtxDone b = Some b'
            \<and> chans b' 2 = [\<lparr>Game = None, Error = Some ErrMatchmakingCancelled\<rparr>])"
proof -
  from C2_witness_run obtain b where r: "run 0 C2_witness_acts = Some b"
    and c: "completed b = [(\<lparr>Player = Some alice, Response = 0\<rparr>, \<lparr>Player = Some bob, Response = 1\<rparr>)]"
    and q: "queue b = [\<lparr>Player = Some bob, Response = 3\<rparr>]"
    and s: "\<not> crashed b" "worker b = Selecting" "ctxDone b"
      "waitingPlayer b = Some \<lparr>Player = Some alice, Response = 2\<rparr>"
    by blast
  note t = C2_at_most_one_reply [OF r]
  from t c have "length (chans b 0) = 1 \<and> length (chans b 1) = 1" by fastforce
  moreover from t q have "chans b 3 = []" by fastforce
  moreover from t have "length (chans b 2) \<le> 1" by blast
  moreover from t s have "\<exists>b'. step WorkerCtxDone b = Some b'
            \<and> chans b' 2 = [\<lparr>Game = None, Error = Some ErrMatchmakingCancelled\<rparr>]" by fastforce
  ultimately show ?thesis using r by blast
qed

text \<open>
  The waiting request is answered on the \<open>Done\<close> branch only. \<open>Stop\<close> also closes the
  queue, and when the worker's \<open>select\<close> then takes the queue branch it returns without
  answering the request it holds.
\<close>

lemma waiting_request_unanswered_when_queue_closes:
  "map_option worker (run 1 C2_closed_acts) = Some Returned
   \<and> map_option waitingPlayer (run 1 C2_closed_acts)
       = Some (Some \<lparr>Player = Some alice, Response = 0\<rparr>)
   \<and> map_option (replies 0) (run 1 C2_closed_acts) = Some []"
  by (simp add: run_def NewGameBroker_def C2_closed_acts_def step_defs Let_def replies_def
        alice_def)

section \<open>Pairing order\<close>

text \<open>
  C3. The claim says that the N-th session consists of arrivals 2N-1 and 2N. A pairing
  that is refused for capacity (or whose construction fails) creates no session, and the
  sessions after it fall behind the arrivals. With one slot and six arrivals: the first
  two form session 1, the third and fourth are paired while session 1 runs and are
  rejected, session 1 ends, and the fifth and sixth form session 2, where the claim
  expects the third and fourth.
\<close>

theorem C3_second_session_is_third_pairing:
  "map_option arrivals (run 1 C3_acts) =
     Some [\<lparr>Player = Some alice, Response = 0\<rparr>, \<lparr>Player = Some bob, Response = 1\<rparr>,
           \<lparr>Player = Some carol, Response = 2\<rparr>, \<lparr>Player = Some dave, Response = 3\<rparr>,
           \<lparr>Player = Some erin, Response = 4\<rparr>, \<lparr>Player = Some frank, Response = 5\<rparr>]
   \<and> map_option sessionsLog (run 1 C3_acts) =
     Some [(\<lparr>Player = Some alice, Response = 0\<rparr>, \<lparr>Player = Some bob, Response = 1\<rparr>),
           (\<lparr>Player = Some erin, Response = 4\<rparr>, \<lparr>Player = Some frank, Response = 5\<rparr>)]
   \<and> map_option (map Players \<circ> supervisors) (run 1 C3_acts) = Some [[Some erin, Some frank]]"
  by (simp add: run_def NewGameBroker_def C3_acts_def step_defs Let_def)

lemma consumed_count:
  assumes "inv_queue k b"
  shows "length (arrivals b) = length (queue b) + k"
  using inv_queueD(2,3) [OF assms] by simp

lemma sessions_of_pairings:
  assumes "inv_log b"
  shows "subseq (sessionsLog b) (pairings b)"
proof -
  from assms have s: "subseq (sessionsLog b) (completed b)" by (simp add: inv_log_def)
  have "subseq (completed b) (pairings b)"
    by (simp add: completed_def) (metis append_butlast_last_id butlast.simps(1) subseq_order.order_refl subseq_rev_drop_many)
  with s show ?thesis by (rule subseq_order.order_trans)
qed

text \<open>
  C3, amended. In every state an execution reaches, the queue is the not yet consumed
  suffix of the arrivals; the requests consumed are those of the pairings made so far
  plus at most one waiting request; the N-th call of \<open>createGame\<close> has the arrivals
  2N-1 and 2N as its two requests (positions \<open>2 * i\<close> and \<open>2 * i + 1\<close> counting from 0);
  and the sessions created are, in order, pairings among these: all of them when no
  pairing was refused.
\<close>

theorem C3_fifo_pairing:
  assumes r: "run n as = Some b"
  shows "(\<forall>i. i < length (pairings b) \<longrightarrow>
            2 * i + 1 < length (arrivals b)
            \<and> pairings b ! i = (arrivals b ! (2 * i), arrivals b ! (2 * i + 1)))
     \<and> length (arrivals b) = length (queue b) + 2 * length (pairings b)
          + (if \<not> is_creating (worker b) \<and> waitingPlayer b \<noteq> None then 1 else 0)
     \<and> queue b = drop (length (arrivals b) - length (queue b)) (arrivals b)
     \<and> subseq (sessionsLog b) (pairings b)
     \<and> (length (sessionsLog b) = length (pairings b) \<longrightarrow> sessionsLog b = pairings b)"
proof -
  from run_inv(1) [OF r] obtain k where i: "inv k b" ..
  note j = invD [OF i]
  note d = inv_queueD [OF j(1)]
  note c = consumed_count [OF j(1)]
  have 1: "2 * i + 1 < length (arrivals b)
            \<and> pairings b ! i = (arrivals b ! (2 * i), arrivals b ! (2 * i + 1))"
    if "i < length (pairings b)" for i
  proof -
    from pairs_bound [OF j(1)] d(2) that have "2 * i + 1 < length (arrivals b)" by simp
    with d(4) [OF that] show ?thesis by simp
  qed
  from c d(6) have 2: "length (arrivals b) = length (queue b) + 2 * length (pairings b)
          + (if \<not> is_creating (worker b) \<and> waitingPlayer b \<noteq> None then 1 else 0)"
    by simp
  from c have "length (arrivals b) - length (queue b) = k" by simp
  with d(3) have 3: "queue b = drop (length (arrivals b) - length (queue b)) (arrivals b)"
    by simp
  note 4 = sessions_of_pairings [OF j(2)]
  have 5: "sessionsLog b = pairings b" if "length (sessionsLog b) = length (pairings b)"
    using 4 that by (rule subseq_same_length)
  from 1 2 3 4 5 show ?thesis by blast
qed

lemma C3_acts_run:
  "\<exists>b. run 1 C3_acts = Some b \<and> length (pairings b) = 3 \<and> length (arrivals b) = 6"
  by (simp add: run_def NewGameBroker_def C3_acts_def step_defs Let_def)

theorem C3_fifo_pairing_witness:
  "\<exists>b. run 1 C3_acts = Some b
      \<and> pairings b ! 0 = (arrivals b ! 0, arrivals b ! 1)
      \<and> pairings b ! 1 = (arrivals b ! 2, arrivals b ! 3)
      \<and> pairings b ! 2 = (arrivals b ! 4, arrivals b ! 5)
      \<and> subseq (sessionsLog b) (pairings b)"
proof -
  from C3_acts_run obtain b where r: "run 1 C3_acts = Some b"
    and l: "length (pairings b) = 3" by blast
  note t = C3_fifo_pairing [OF r]
  from t l have "pairings b ! 0 = (arrivals b ! (2 * 0), arrivals b ! (2 * 0 + 1))"
    "pairings b ! 1 = (arrivals b ! (2 * 1), arrivals b ! (2 * 1 + 1))"
    "pairings b ! 2 = (arrivals b ! (2 * 2), arrivals b ! (2 * 2 + 1))"
    by simp_all
  then have "pairings b ! 0 = (arrivals b ! 0, arrivals b ! 1)"
    "pairings b ! 1 = (arrivals b ! 2, arrivals b ! 3)"
    "pairings b ! 2 = (arrivals b ! 4, arrivals b ! 5)"
    by simp_all
  with t r show ?thesis by blast
qed



section \<open>Backpressure on the queue\<close>

lemma sends_fill:
  assumes "\<not> crashed b" "\<not> queueClosed b" "length (queue b) + m \<le> queueCap"
  shows "exec (replicate m (Send p)) b =
     Some (b\<lparr>queue := queue b @ map (\<lambda>i. \<lparr>Player = p, Response = i\<rparr>) [nextChan b..<nextChan b + m],
             nextChan := nextChan b + m,
             arrivals := arrivals b
                @ map (\<lambda>i. \<lparr>Player = p, Response = i\<rparr>) [nextChan b..<nextChan b + m]\<rparr>)"
  using assms
proof (induction m arbitrary: b)
  case 0
  then show ?case by simp
next
  case (Suc m)
  let ?r = "\<lparr>Player = p, Response = nextChan b\<rparr>"
  let ?b = "b\<lparr>queue := queue b @ [?r], nextChan := nextChan b + 1, arrivals := arrivals b @ [?r]\<rparr>"
  from Suc.prems have s: "step (Send p) b = Some ?b"
    by (simp add: step_def RequestGame_send_def Let_def)
  from Suc.prems have "\<not> crashed ?b" "\<not> queueClosed ?b" "length (queue ?b) + m \<le> queueCap"
    by simp_all
  from Suc.IH [OF this] s show ?case
    by (simp add: upt_conv_Cons)
qed

lemma fullQueueBroker_reached:
  "run 1 (replicate queueCap (Send (Some alice))) = Some fullQueueBroker"
  by (simp add: run_def NewGameBroker_def sends_fill fullQueueBroker_def)


lemma fullQueueBroker_full: "length (queue fullQueueBroker) = queueCap"
  by (simp add: fullQueueBroker_def)

text \<open>
  C4. The claim says that a call of \<open>RequestGame\<close> on a full queue reports the failure
  at once. The code waits: the error comes from the \<open>time.After(5 * time.Second)\<close>
  branch of the \<open>select\<close>. On the broker whose queue holds \<open>queueCap\<close> requests, at the
  moment of the call and one nanosecond before the five seconds are over, no branch is
  ready and the caller is blocked; the error is returned from five seconds on.
\<close>

theorem C4_full_queue_blocks_caller:
  "length (queue fullQueueBroker) = queueCap
   \<and> RequestGame_enqueue (Some bob) fullQueueBroker 0 QueueSend = None
   \<and> RequestGame_enqueue (Some bob) fullQueueBroker 0 After5s = None
   \<and> RequestGame_enqueue (Some bob) fullQueueBroker 0 CtxDoneBranch = None
   \<and> RequestGame_enqueue (Some bob) fullQueueBroker 4999999999 After5s = None
   \<and> RequestGame_enqueue (Some bob) fullQueueBroker 5000000000 After5s = Some (Inl ErrQueueFull)"
  by (simp add: fullQueueBroker_full RequestGame_enqueue_def enqueue_ready_def fiveSeconds_def)
     (simp add: fullQueueBroker_def)

text \<open>
  C4, amended. When \<open>RequestGame\<close> is called while the queue is at capacity, the send
  branch is not ready, and the call returns the queue-full error exactly when the
  five-second timer branch is taken, which is ready once five seconds have passed without
  room in the queue; before that the only result is the shutdown error, if the broker's
  context is cancelled.
\<close>

theorem C4_queue_full_after_five_seconds:
  assumes "length (queue b) = queueCap" "\<not> queueClosed b"
  shows "RequestGame_enqueue p b elapsed QueueSend = None
     \<and> (RequestGame_enqueue p b elapsed br = Some (Inl ErrQueueFull)
          \<longleftrightarrow> br = After5s \<and> fiveSeconds \<le> elapsed)
     \<and> (elapsed < fiveSeconds \<and> \<not> ctxDone b \<longrightarrow> RequestGame_enqueue p b elapsed br = None)
     \<and> (RequestGame_enqueue p b elapsed CtxDoneBranch
          = (if ctxDone b then Some (Inl ErrShuttingDown) else None))"
  using assms
  by (cases br) (simp_all add: RequestGame_enqueue_def enqueue_ready_def RequestGame_send_def)

theorem C4_queue_full_after_five_seconds_witness:
  "length (queue fullQueueBroker) = queueCap \<and> \<not> queueClosed fullQueueBroker
   \<and> RequestGame_enqueue (Some bob) fullQueueBroker 5000000000 After5s = Some (Inl ErrQueueFull)
   \<and> RequestGame_enqueue (Some bob) fullQueueBroker 1000000000 After5s = None
   \<and> RequestGame_enqueue (Some bob) fullQueueBroker 5000000000 QueueSend = None"
proof -
  have c: "\<not> queueClosed fullQueueBroker" "\<not> ctxDone fullQueueBroker"
    by (simp_all add: fullQueueBroker_def)
  note t = C4_queue_full_after_five_seconds [OF fullQueueBroker_full c(1), of "Some bob"]
  from t [of 5000000000 After5s]
  have 1: "RequestGame_enqueue (Some bob) fullQueueBroker 5000000000 After5s = Some (Inl ErrQueueFull)"
    and 3: "RequestGame_enqueue (Some bob) fullQueueBroker 5000000000 QueueSend = None"
    by (simp_all add: fiveSeconds_def)
  from t [of 1000000000 After5s] c(2)
  have 2: "RequestGame_enqueue (Some bob) fullQueueBroker 1000000000 After5s = None"
    by (simp add: fiveSeconds_def)
  from 1 2 3 c fullQueueBroker_full show ?thesis by simp
qed

section \<open>The registry's loop\<close>

lemma Run_never_returns: "Run fuel evs m = None"
  by (induction fuel evs m rule: Run.induct) simp_all

lemma cleanupClient_present:
  assumes "map_of (clients m) c = Some cancel"
  shows "cleanupClient c m =
     m\<lparr>clients := AList.delete c (clients m),
       effects := effects m @ [CancelCalled cancel, CloseCalled c]\<rparr>"
  using assms by (simp add: cleanupClient_def)

lemma delete_fresh: "c \<notin> fst ` set al \<Longrightarrow> AList.delete c al = al"
  by (induction al) auto

lemma fold_cleanup:
  assumes "distinct (map fst al)" "clients m = al"
  shows "fold cleanupClient (map fst al) m =
     m\<lparr>clients := [],
       effects := effects m @ concat (map (\<lambda>(c, cancel). [CancelCalled cancel, CloseCalled c]) al)\<rparr>"
  using assms
proof (induction al arbitrary: m)
  case Nil
  then show ?case by simp
next
  case (Cons x al)
  obtain c cancel where x: "x = (c, cancel)" by (cases x)
  from Cons.prems x have f: "c \<notin> fst ` set al" and d: "distinct (map fst al)" by auto
  from Cons.prems x have "map_of (clients m) c = Some cancel" by simp
  from cleanupClient_present [OF this] Cons.prems x delete_fresh [OF f]
  have s: "cleanupClient c m =
     m\<lparr>clients := al, effects := effects m @ [CancelCalled cancel, CloseCalled c]\<rparr>"
    by simp
  have "clients (cleanupClient c m) = al" by (simp add: s)
  from Cons.IH [OF d this] show ?case by (simp add: x s)
qed

lemma ctx_done_teardown:
  assumes "distinct (Clients m)"
  shows "Run_iteration CtxDone m =
     m\<lparr>clients := [],
       effects := effects m
         @ concat (map (\<lambda>(c, cancel). [CancelCalled cancel, CloseCalled c]) (clients m))\<rparr>"
  using fold_cleanup [of "clients m" m] assms by (simp add: Run_iteration_def Clients_def)

lemma Run_iteration_distinct:
  assumes "distinct (Clients m)"
  shows "distinct (Clients (Run_iteration ev m))"
proof (cases ev)
  case CtxDone
  with ctx_done_teardown [OF assms] show ?thesis by (simp add: Clients_def)
next
  case (RegisterReq cancel c)
  with assms show ?thesis
    by (simp add: Run_iteration_def Clients_def Let_def distinct_update)
next
  case (UnregisterReq c)
  with assms show ?thesis
    by (simp add: Run_iteration_def Clients_def Let_def cleanupClient_def distinct_delete
          split: option.splits)
qed

lemma register_Clients:
  "set (Clients (Run_iteration (RegisterReq cancel c) m)) = insert c (set (Clients m))"
  by (auto simp: Run_iteration_def Clients_def Let_def update_keys)

lemma unregister_Clients:
  "set (Clients (Run_iteration (UnregisterReq c) m)) = set (Clients m) - {c}"
proof (cases "map_of (clients m) c")
  case None
  then have "c \<notin> fst ` set (clients m)" by (simp add: map_of_eq_None_iff)
  with None show ?thesis by (simp add: Run_iteration_def Clients_def)
next
  case (Some cancel)
  then show ?thesis
    by (simp add: Run_iteration_def Clients_def Let_def cleanupClient_def delete_keys)
qed


lemma rnu_register:
  "registered_not_unregistered (ops @ [RegisterReq cancel c])
     = insert c (registered_not_unregistered ops)"
proof (intro set_eqI iffI)
  fix x assume "x \<in> registered_not_unregistered (ops @ [RegisterReq cancel c])"
  then obtain before h after where e: "ops @ [RegisterReq cancel c] = before @ RegisterReq h x # after"
    and n: "UnregisterReq x \<notin> set after"
    by (auto simp: registered_not_unregistered_def)
  show "x \<in> insert c (registered_not_unregistered ops)"
  proof (cases after rule: rev_cases)
    case Nil
    with e show ?thesis by simp
  next
    case (snoc after' ev)
    with e have "ops = before @ RegisterReq h x # after'" by simp
    moreover from n snoc have "UnregisterReq x \<notin> set after'" by simp
    ultimately show ?thesis by (auto simp: registered_not_unregistered_def)
  qed
next
  fix x assume "x \<in> insert c (registered_not_unregistered ops)"
  then show "x \<in> registered_not_unregistered (ops @ [RegisterReq cancel c])"
  proof
    assume "x = c"
    then have "ops @ [RegisterReq cancel c] = ops @ RegisterReq cancel x # []"
      "UnregisterReq x \<notin> set []" by simp_all
    then show ?thesis unfolding registered_not_unregistered_def by blast
  next
    assume "x \<in> registered_not_unregistered ops"
    then obtain before h after where "ops = before @ RegisterReq h x # after"
      "UnregisterReq x \<notin> set after"
      by (auto simp: registered_not_unregistered_def)
    then have "ops @ [RegisterReq cancel c] = before @ RegisterReq h x # (after @ [RegisterReq cancel c])"
      "UnregisterReq x \<notin> set (after @ [RegisterReq cancel c])" by simp_all
    then show ?thesis unfolding registered_not_unregistered_def by blast
  qed
qed

lemma rnu_unregister:
  "registered_not_unregistered (ops @ [UnregisterReq c]) = registered_not_unregistered ops - {c}"
proof (intro set_eqI iffI)
  fix x assume "x \<in> registered_not_unregistered (ops @ [UnregisterReq c])"
  then obtain before h after where e: "ops @ [UnregisterReq c] = before @ RegisterReq h x # after"
    and n: "UnregisterReq x \<notin> set after"
    by (auto simp: registered_not_unregistered_def)
  show "x \<in> registered_not_unregistered ops - {c}"
  proof (cases after rule: rev_cases)
    case Nil
    with e show ?thesis by simp
  next
    case (snoc after' ev)
    with e have o: "ops = before @ RegisterReq h x # after'" and ev: "ev = UnregisterReq c"
      by simp_all
    from n snoc ev have "UnregisterReq x \<notin> set after'" "x \<noteq> c" by auto
    with o show ?thesis by (auto simp: registered_not_unregistered_def)
  qed
next
  fix x assume "x \<in> registered_not_unregistered ops - {c}"
  then have m: "x \<in> registered_not_unregistered ops" and ne: "x \<noteq> c" by simp_all
  from m obtain before h after where "ops = before @ RegisterReq h x # after"
    "UnregisterReq x \<notin> set after"
    by (auto simp: registered_not_unregistered_def)
  with ne have "ops @ [UnregisterReq c] = before @ RegisterReq h x # (after @ [UnregisterReq c])"
    "UnregisterReq x \<notin> set (after @ [UnregisterReq c])" by simp_all
  then show "x \<in> registered_not_unregistered (ops @ [UnregisterReq c])"
    unfolding registered_not_unregistered_def by blast
qed

lemma Run_state_snoc: "Run_state (ops @ [ev]) m = Run_iteration ev (Run_state ops m)"
  by (simp add: Run_state_def)

lemma Run_state_Clients:
  assumes "CtxDone \<notin> set ops"
  shows "set (Clients (Run_state ops NewManager)) = registered_not_unregistered ops"
  using assms
proof (induction ops rule: rev_induct)
  case Nil
  show ?case by (simp add: Run_state_def NewManager_def Clients_def registered_not_unregistered_def)
next
  case (snoc ev ops)
  then have IH: "set (Clients (Run_state ops NewManager)) = registered_not_unregistered ops"
    by simp
  show ?case
  proof (cases ev)
    case CtxDone
    with snoc.prems show ?thesis by simp
  next
    case (RegisterReq cancel c)
    then show ?thesis
      unfolding Run_state_snoc by (simp only: register_Clients rnu_register IH)
  next
    case (UnregisterReq c)
    then show ?thesis
      unfolding Run_state_snoc by (simp only: unregister_Clients rnu_unregister IH)
  qed
qed

lemma Run_state_distinct: "distinct (Clients (Run_state ops NewManager))"
proof (induction ops rule: rev_induct)
  case Nil
  show ?case by (simp add: Run_state_def NewManager_def Clients_def)
next
  case (snoc ev ops)
  then show ?case unfolding Run_state_snoc by (rule Run_iteration_distinct)
qed

lemma unregister_present:
  assumes "map_of (clients m) c = Some cancel"
  shows "Run_iteration (UnregisterReq c) m =
     m\<lparr>clients := AList.delete c (clients m),
       effects := effects m @ [CancelCalled cancel, CloseCalled c, DoneSignalled c]\<rparr>"
  using assms by (simp add: Run_iteration_def cleanupClient_present)

lemma unregister_absent:
  assumes "map_of (clients m) c = None"
  shows "Run_iteration (UnregisterReq c) m = m\<lparr>effects := effects m @ [DoneSignalled c]\<rparr>"
  using assms by (simp add: Run_iteration_def)

text \<open>
  C8. For every sequence of register and unregister requests processed by \<open>Run\<close>, the
  connections that \<open>Clients\<close> enumerates are exactly those with a register request that
  no later unregister request follows, each listed once. Unregistering a connection that
  is present invokes its stored cancellation handle once and \<open>Close\<close> once, removes it,
  and signals \<open>done\<close>; unregistering an absent connection changes nothing and signals
  \<open>done\<close>, so the caller returns in both cases.
\<close>

theorem C8_registry_tracks_live_connections:
  assumes "CtxDone \<notin> set ops"
  shows "set (Clients (Run_state ops NewManager)) = registered_not_unregistered ops
     \<and> distinct (Clients (Run_state ops NewManager))
     \<and> (c \<in> set (Clients m) \<longrightarrow>
          (\<exists>cancel. map_of (clients m) c = Some cancel
             \<and> Run_iteration (UnregisterReq c) m =
                 m\<lparr>clients := AList.delete c (clients m),
                   effects := effects m @ [CancelCalled cancel, CloseCalled c, DoneSignalled c]\<rparr>)
          \<and> c \<notin> set (Clients (Run_iteration (UnregisterReq c) m)))
     \<and> (c \<notin> set (Clients m) \<longrightarrow>
          Run_iteration (UnregisterReq c) m = m\<lparr>effects := effects m @ [DoneSignalled c]\<rparr>)"
proof (intro conjI impI)
  show "set (Clients (Run_state ops NewManager)) = registered_not_unregistered ops"
    by (rule Run_state_Clients [OF assms])
  show "distinct (Clients (Run_state ops NewManager))" by (rule Run_state_distinct)
next
  assume "c \<in> set (Clients m)"
  then have "map_of (clients m) c \<noteq> None" by (simp add: Clients_def map_of_eq_None_iff)
  then obtain cancel where "map_of (clients m) c = Some cancel" by blast
  with unregister_present [OF this]
  show "\<exists>cancel. map_of (clients m) c = Some cancel
             \<and> Run_iteration (UnregisterReq c) m =
                 m\<lparr>clients := AList.delete c (clients m),
                   effects := effects m @ [CancelCalled cancel, CloseCalled c, DoneSignalled c]\<rparr>"
    by blast
next
  assume "c \<in> set (Clients m)"
  show "c \<notin> set (Clients (Run_iteration (UnregisterReq c) m))"
    by (simp add: unregister_Clients)
next
  assume "c \<notin> set (Clients m)"
  then have "map_of (clients m) c = None" by (simp add: Clients_def map_of_eq_None_iff)
  then show "Run_iteration (UnregisterReq c) m = m\<lparr>effects := effects m @ [DoneSignalled c]\<rparr>"
    by (rule unregister_absent)
qed

lemma C8_ops_state:
  "Run_state C8_ops NewManager =
     \<lparr>clients = [(2, 20)],
      effects = [DoneSignalled 1, DoneSignalled 2, CancelCalled 10, CloseCalled 1,
                 DoneSignalled 1, DoneSignalled 1]\<rparr>"
  by (simp add: Run_state_def C8_ops_def NewManager_def Run_iteration_def cleanupClient_def
        Let_def)

theorem C8_registry_tracks_live_connections_witness:
  "Clients (Run_state C8_ops NewManager) = [2]
   \<and> registered_not_unregistered C8_ops = {2}
   \<and> Run_iteration (UnregisterReq 2) (Run_state C8_ops NewManager) =
       \<lparr>clients = [],
        effects = [DoneSignalled 1, DoneSignalled 2, CancelCalled 10, CloseCalled 1,
                   DoneSignalled 1, DoneSignalled 1,
                   CancelCalled 20, CloseCalled 2, DoneSignalled 2]\<rparr>
   \<and> Run_iteration (UnregisterReq 1) (Run_state C8_ops NewManager) =
       \<lparr>clients = [(2, 20)],
        effects = [DoneSignalled 1, DoneSignalled 2, CancelCalled 10, CloseCalled 1,
                   DoneSignalled 1, DoneSignalled 1, DoneSignalled 1]\<rparr>"
proof -
  have n: "CtxDone \<notin> set C8_ops" by (simp add: C8_ops_def)
  have c: "Clients (Run_state C8_ops NewManager) = [2]"
    by (simp add: C8_ops_state Clients_def)
  from C8_registry_tracks_live_connections [OF n, of 2 "Run_state C8_ops NewManager"] c
  have 1: "registered_not_unregistered C8_ops = {2}"
    and 2: "Run_iteration (UnregisterReq 2) (Run_state C8_ops NewManager) =
       \<lparr>clients = [],
        effects = [DoneSignalled 1, DoneSignalled 2, CancelCalled 10, CloseCalled 1,
                   DoneSignalled 1, DoneSignalled 1,
                   CancelCalled 20, CloseCalled 2, DoneSignalled 2]\<rparr>"
    by (auto simp: C8_ops_state)
  from C8_registry_tracks_live_connections [OF n, of 1 "Run_state C8_ops NewManager"] c
  have 3: "Run_iteration (UnregisterReq 1) (Run_state C8_ops NewManager) =
       \<lparr>clients = [(2, 20)],
        effects = [DoneSignalled 1, DoneSignalled 2, CancelCalled 10, CloseCalled 1,
                   DoneSignalled 1, DoneSignalled 1, DoneSignalled 1]\<rparr>"
    by (simp add: C8_ops_state)
  from c 1 2 3 show ?thesis by simp
qed

text \<open>
  C5. The claim says that \<open>Run\<close>, on cancellation, tears down every connection and then
  returns. The teardown happens: after two registrations and the cancellation the live
  set is empty, and each stored handle and each \<open>Close\<close> has been invoked once. But no
  branch of the loop returns, so \<open>Run\<close> goes on selecting (its \<open>Done\<close> branch stays ready)
  and never returns, whatever it receives and however long it runs.
\<close>

theorem C5_Run_never_returns:
  "Run_state C5_events NewManager =
     \<lparr>clients = [],
      effects = [DoneSignalled 1, DoneSignalled 2,
                 CancelCalled 10, CloseCalled 1, CancelCalled 20, CloseCalled 2]\<rparr>
   \<and> Run fuel (C5_events @ later) NewManager = None"
  by (simp add: Run_never_returns)
     (simp add: Run_state_def C5_events_def NewManager_def Run_iteration_def cleanupClient_def
        Let_def)

end
